theory Spec2Isabelle
  imports Complex_Main "HOL-Library.Multiset"
begin

section \<open>Data model\<close>

text \<open>
  A decision or objective vector is a row of floats. Floats are modelled as reals:
  rounding is not modelled, and a value that can be infinite has the type \<open>fl\<close> below.
  A Python list of rows is a list of vectors; a two-dimensional numpy array is its
  column count together with its rows, so that an array without rows keeps its width
  (\<open>np.vstack\<close> compares widths). \<open>np.array([])\<close> is \<open>NDArray 0 []\<close>.
\<close>

type_synonym vec = "real list"

datatype py_error =
  ValueError | IndexError | ZeroDivisionError | LinAlgError | TypeError | AttributeError

datatype ndarray = NDArray (ncols: nat) (rows: "vec list")

definition nrows :: "ndarray \<Rightarrow> nat" where
  "nrows A = length (rows A)"

definition wf_array :: "ndarray \<Rightarrow> bool" where
  "wf_array A \<longleftrightarrow> list_all (\<lambda>r. length r = ncols A) (rows A)"

definition entry :: "ndarray \<Rightarrow> nat \<Rightarrow> nat \<Rightarrow> real" where
  "entry A i j = rows A ! i ! j"

definition column :: "ndarray \<Rightarrow> nat \<Rightarrow> vec" where
  "column A m = map (\<lambda>r. r ! m) (rows A)"

text \<open>\<^verbatim>\<open>A[idx]\<close> for an index array \<open>idx\<close>: the rows at these indices, in this order.\<close>

definition take_rows :: "ndarray \<Rightarrow> nat list \<Rightarrow> ndarray" where
  "take_rows A idx = NDArray (ncols A) (map (\<lambda>i. rows A ! i) idx)"

text \<open>An exception ends the computation: the rest runs on a result only.\<close>

definition and_then :: "py_error + 'a \<Rightarrow> ('a \<Rightarrow> py_error + 'b) \<Rightarrow> py_error + 'b" where
  "and_then m f = (case m of Inl e \<Rightarrow> Inl e | Inr x \<Rightarrow> f x)"

fun fold_err :: "('s \<Rightarrow> 'a \<Rightarrow> py_error + 's) \<Rightarrow> 's \<Rightarrow> 'a list \<Rightarrow> py_error + 's" where
  "fold_err f s [] = Inr s"
| "fold_err f s (x # xs) = (case f s x of Inl e \<Rightarrow> Inl e | Inr s' \<Rightarrow> fold_err f s' xs)"

subsection \<open>Floats that can be infinite\<close>

datatype fl = NInf | Fin real | PInf

instantiation fl :: linorder
begin

definition less_eq_fl :: "fl \<Rightarrow> fl \<Rightarrow> bool" where
  "less_eq_fl x y \<longleftrightarrow>
     (case x of
        NInf \<Rightarrow> True
      | Fin a \<Rightarrow> (case y of NInf \<Rightarrow> False | Fin b \<Rightarrow> a \<le> b | PInf \<Rightarrow> True)
      | PInf \<Rightarrow> (case y of PInf \<Rightarrow> True | _ \<Rightarrow> False))"

definition less_fl :: "fl \<Rightarrow> fl \<Rightarrow> bool" where
  "less_fl x y \<longleftrightarrow> x \<le> y \<and> \<not> y \<le> x"

instance
proof
  fix x y z :: fl
  show "(x < y) = (x \<le> y \<and> \<not> y \<le> x)" by (simp add: less_fl_def)
  show "x \<le> x" by (cases x) (simp_all add: less_eq_fl_def)
  show "x \<le> y \<Longrightarrow> y \<le> z \<Longrightarrow> x \<le> z"
    by (cases x; cases y; cases z) (simp_all add: less_eq_fl_def)
  show "x \<le> y \<Longrightarrow> y \<le> x \<Longrightarrow> x = y"
    by (cases x; cases y) (simp_all add: less_eq_fl_def)
  show "x \<le> y \<or> y \<le> x"
    by (cases x; cases y) (auto simp: less_eq_fl_def)
qed

end

definition fl_neg :: "fl \<Rightarrow> fl" where
  "fl_neg x = (case x of NInf \<Rightarrow> PInf | Fin a \<Rightarrow> Fin (- a) | PInf \<Rightarrow> NInf)"

text \<open>\<^verbatim>\<open>x += d\<close> for a finite \<open>d\<close>: an infinite \<open>x\<close> stays what it is.\<close>

definition fl_add :: "fl \<Rightarrow> real \<Rightarrow> fl" where
  "fl_add x d = (case x of NInf \<Rightarrow> NInf | Fin a \<Rightarrow> Fin (a + d) | PInf \<Rightarrow> PInf)"

section \<open>Library calls whose result the program does not fix\<close>

text \<open>
  \<^verbatim>\<open>np.random.choice(n, size=k, replace=False)\<close> returns \<open>k\<close> pairwise different
  indices below \<open>n\<close>. The drawn index list is an argument of the model; \<open>choice_ok\<close> is
  what numpy guarantees about it.
\<close>

definition choice_ok :: "nat \<Rightarrow> nat \<Rightarrow> nat list \<Rightarrow> bool" where
  "choice_ok n k idx \<longleftrightarrow> length idx = k \<and> distinct idx \<and> list_all (\<lambda>i. i < n) idx"

text \<open>
  \<^verbatim>\<open>np.argsort(xs)\<close> returns the indices of \<open>xs\<close> in an order that sorts it. numpy's
  default sort is not stable, so the order of equal values is not fixed: the sort is a
  parameter \<open>argsort\<close> of the functions that call it, \<open>argsort_spec\<close> is its contract,
  and \<open>argsort_stable\<close> is one sort that meets it.
\<close>

definition argsort_ok :: "fl list \<Rightarrow> nat list \<Rightarrow> bool" where
  "argsort_ok xs p \<longleftrightarrow> choice_ok (length xs) (length xs) p \<and> sorted (map (\<lambda>i. xs ! i) p)"

definition argsort_spec :: "(fl list \<Rightarrow> nat list) \<Rightarrow> bool" where
  "argsort_spec argsort \<longleftrightarrow> (\<forall>xs. argsort_ok xs (argsort xs))"

definition argsort_stable :: "fl list \<Rightarrow> nat list" where
  "argsort_stable xs = sort_key (\<lambda>i. xs ! i) [0..<length xs]"

section \<open>crowding_distance\<close>

text \<open>
  The body of the inner loop \<^verbatim>\<open>for i in range(1, n_points - 1)\<close>: nothing when the
  range of the objective is zero, else the normalised gap between the neighbours of
  \<open>sorted_indices[i]\<close> is added to its distance.
\<close>

definition cd_interior ::
  "ndarray \<Rightarrow> nat \<Rightarrow> nat list \<Rightarrow> real \<Rightarrow> real \<Rightarrow> fl list \<Rightarrow> nat \<Rightarrow> fl list" where
  "cd_interior F m sorted_indices f_min f_max distance i =
     (if f_max - f_min = 0 then distance
      else distance[sorted_indices ! i :=
             fl_add (distance ! (sorted_indices ! i))
               ((entry F (sorted_indices ! (i + 1)) m - entry F (sorted_indices ! (i - 1)) m)
                  / (f_max - f_min))])"

text \<open>
  The body of the outer loop \<^verbatim>\<open>for m in range(n_obj)\<close>. \<^verbatim>\<open>sorted_indices[0]\<close> raises
  IndexError on a front without points; \<^verbatim>\<open>sorted_indices[-1]\<close> is the last index.
\<close>

definition cd_objective ::
  "(fl list \<Rightarrow> nat list) \<Rightarrow> ndarray \<Rightarrow> fl list \<Rightarrow> nat \<Rightarrow> py_error + fl list" where
  "cd_objective argsort F distance m =
     (let n_points = nrows F;
          sorted_indices = argsort (map Fin (column F m))
      in if n_points = 0 then Inl IndexError
         else
           let f_min = entry F (sorted_indices ! 0) m;
               f_max = entry F (sorted_indices ! (n_points - 1)) m;
               distance1 = (distance[sorted_indices ! 0 := PInf])
                             [sorted_indices ! (n_points - 1) := PInf]
           in Inr (foldl (cd_interior F m sorted_indices f_min f_max) distance1
                     [1..<n_points - 1]))"

definition crowding_distance :: "(fl list \<Rightarrow> nat list) \<Rightarrow> ndarray \<Rightarrow> py_error + fl list" where
  "crowding_distance argsort F =
     (let n_points = nrows F; n_obj = ncols F;
          distance = replicate n_points (Fin 0)
      in fold_err (cd_objective argsort F) distance [0..<n_obj])"

text \<open>
  What the loops compute, point by point. In objective \<open>m\<close> the point \<open>j\<close> stands at
  position \<open>cd_position\<close> of the sort order; it is extreme there when it is the first or
  the last, and its contribution is the normalised gap between its two neighbours,
  zero when all values of the objective are equal.
\<close>

definition cd_order :: "(fl list \<Rightarrow> nat list) \<Rightarrow> ndarray \<Rightarrow> nat \<Rightarrow> nat list" where
  "cd_order argsort F m = argsort (map Fin (column F m))"

definition cd_position :: "(fl list \<Rightarrow> nat list) \<Rightarrow> ndarray \<Rightarrow> nat \<Rightarrow> nat \<Rightarrow> nat" where
  "cd_position argsort F m j = length (takeWhile (\<lambda>i. i \<noteq> j) (cd_order argsort F m))"

definition cd_extreme :: "(fl list \<Rightarrow> nat list) \<Rightarrow> ndarray \<Rightarrow> nat \<Rightarrow> nat \<Rightarrow> bool" where
  "cd_extreme argsort F m j \<longleftrightarrow>
     j = cd_order argsort F m ! 0 \<or> j = cd_order argsort F m ! (nrows F - 1)"

definition cd_contribution :: "(fl list \<Rightarrow> nat list) \<Rightarrow> ndarray \<Rightarrow> nat \<Rightarrow> nat \<Rightarrow> real" where
  "cd_contribution argsort F m j =
     (let s = cd_order argsort F m;
          f_min = entry F (s ! 0) m;
          f_max = entry F (s ! (nrows F - 1)) m;
          p = cd_position argsort F m j
      in if f_max - f_min = 0 then 0
         else (entry F (s ! (p + 1)) m - entry F (s ! (p - 1)) m) / (f_max - f_min))"

definition cd_point :: "(fl list \<Rightarrow> nat list) \<Rightarrow> ndarray \<Rightarrow> nat \<Rightarrow> fl" where
  "cd_point argsort F j =
     (if list_ex (\<lambda>m. cd_extreme argsort F m j) [0..<ncols F] then PInf
      else Fin (sum_list (map (\<lambda>m. cd_contribution argsort F m j) [0..<ncols F])))"

text \<open>The term the inner loop adds at position \<open>i\<close> of the sort order \<open>s\<close>.\<close>

definition cd_gap :: "ndarray \<Rightarrow> nat \<Rightarrow> nat list \<Rightarrow> real \<Rightarrow> real \<Rightarrow> nat \<Rightarrow> real" where
  "cd_gap F m s lo hi i =
     (if hi - lo = 0 then 0 else (entry F (s ! (i + 1)) m - entry F (s ! (i - 1)) m) / (hi - lo))"

definition front3 :: ndarray where
  "front3 = NDArray 2 [[0, 5], [1, 1], [5, 0]]"

definition front4 :: ndarray where
  "front4 = NDArray 2 [[0, 6], [1, 3], [3, 1], [5, 0]]"

section \<open>The archive: save_elite_solutions\<close>

text \<open>
  \<^verbatim>\<open>save_elite_solutions(problem, var, obj, max_save, solutions, max_per_problem=40)\<close>.
  The function writes the new archive into \<open>solutions[:]\<close>; the model returns it.
  \<open>r1\<close> and \<open>r2\<close> are the results of the two \<open>np.random.choice\<close> calls, each read
  only in the branch that draws. The capacities are counts.
\<close>

definition save_elite_solutions ::
  "'p \<Rightarrow> vec list \<Rightarrow> 'o \<Rightarrow> nat \<Rightarrow> vec list \<Rightarrow> nat \<Rightarrow> nat list \<Rightarrow> nat list \<Rightarrow> vec list" where
  "save_elite_solutions problem var obj max_save solutions max_per_problem r1 r2 =
     (let current_solutions = var;
          current_elites =
            (if length current_solutions > max_per_problem
             then map (\<lambda>i. current_solutions ! i) r1
             else current_solutions);
          combined = solutions @ current_elites
      in if length combined > max_save
         then map (\<lambda>i. combined ! i) r2
         else combined)"

text \<open>
  The pool the second draw is taken from: the old archive followed by the capped
  contribution of the new population.
\<close>

definition combined_pool :: "vec list \<Rightarrow> vec list \<Rightarrow> nat \<Rightarrow> nat list \<Rightarrow> vec list" where
  "combined_pool solutions var max_per_problem r1 =
     solutions @ (if length var > max_per_problem then map (\<lambda>i. var ! i) r1 else var)"

text \<open>A call of the driver: the optimizer's decision vectors and the two draws.\<close>

record update_call =
  new_var :: "vec list"
  draw1 :: "nat list"
  draw2 :: "nat list"

definition call_ok :: "nat \<Rightarrow> nat \<Rightarrow> vec list \<Rightarrow> update_call \<Rightarrow> bool" where
  "call_ok max_save max_per_problem solutions c \<longleftrightarrow>
     (if length (new_var c) > max_per_problem
      then choice_ok (length (new_var c)) max_per_problem (draw1 c) else True) \<and>
     (if length (combined_pool solutions (new_var c) max_per_problem (draw1 c)) > max_save
      then choice_ok (length (combined_pool solutions (new_var c) max_per_problem (draw1 c)))
             max_save (draw2 c)
      else True)"

fun run_updates :: "nat \<Rightarrow> nat \<Rightarrow> vec list \<Rightarrow> update_call list \<Rightarrow> vec list" where
  "run_updates max_save max_per_problem solutions [] = solutions"
| "run_updates max_save max_per_problem solutions (c # cs) =
     run_updates max_save max_per_problem
       (save_elite_solutions () (new_var c) () max_save solutions max_per_problem (draw1 c) (draw2 c))
       cs"

fun draws_ok :: "nat \<Rightarrow> nat \<Rightarrow> vec list \<Rightarrow> update_call list \<Rightarrow> bool" where
  "draws_ok max_save max_per_problem solutions [] = True"
| "draws_ok max_save max_per_problem solutions (c # cs) =
     (call_ok max_save max_per_problem solutions c \<and>
      draws_ok max_save max_per_problem
        (save_elite_solutions () (new_var c) () max_save solutions max_per_problem (draw1 c) (draw2 c))
        cs)"

definition ten_items :: "vec list" where
  "ten_items = map (\<lambda>i. [real i]) [0..<10]"

definition example_calls :: "update_call list" where
  "example_calls =
     [\<lparr>new_var = [[1], [2]], draw1 = [1], draw2 = []\<rparr>,
      \<lparr>new_var = [[3]], draw1 = [], draw2 = []\<rparr>,
      \<lparr>new_var = [[4], [5]], draw1 = [0], draw2 = [2, 0]\<rparr>]"

section \<open>Quality indicators: compute_sp and compute_ms\<close>

text \<open>\<^verbatim>\<open>np.min\<close> and \<^verbatim>\<open>np.max\<close> of a list that is not empty.\<close>

definition amin :: "real list \<Rightarrow> real" where
  "amin xs = foldl min (hd xs) (tl xs)"

definition amax :: "real list \<Rightarrow> real" where
  "amax xs = foldl max (hd xs) (tl xs)"

text \<open>
  \<^verbatim>\<open>np.min(A, axis=0)\<close>: the minimum of every column; numpy raises ValueError when
  there is no row to take a minimum of (a reduction over an axis of size zero),
  whatever the number of columns.
\<close>

definition axis_min :: "ndarray \<Rightarrow> py_error + vec" where
  "axis_min A =
     (if nrows A = 0 then Inl ValueError
      else Inr (map (\<lambda>k. amin (column A k)) [0..<ncols A]))"

definition axis_max :: "ndarray \<Rightarrow> py_error + vec" where
  "axis_max A =
     (if nrows A = 0 then Inl ValueError
      else Inr (map (\<lambda>k. amax (column A k)) [0..<ncols A]))"

text \<open>A metric is a float; the quotient 0.0 / 0 of numpy is NaN.\<close>

datatype metric = Value real | NaN

text \<open>
  The body of \<^verbatim>\<open>for k in range(F.shape[1])\<close> in compute_ms: the overlap of the two
  ranges over the range of the true front, squared; \<^verbatim>\<open>true_max[k]\<close> raises IndexError
  when the true front has fewer objectives than \<open>F\<close>.
\<close>

definition ms_component :: "vec \<Rightarrow> vec \<Rightarrow> vec \<Rightarrow> vec \<Rightarrow> real list \<Rightarrow> nat \<Rightarrow> py_error + real list" where
  "ms_component F_min F_max true_min true_max ms_components k =
     (if length true_max \<le> k then Inl IndexError
      else
        let numerator = min (true_max ! k) (F_max ! k) - max (true_min ! k) (F_min ! k);
            denominator = true_max ! k - true_min ! k
        in if \<bar>denominator\<bar> < 1 / 1000000 then Inr (ms_components @ [0])
           else Inr (ms_components @ [(numerator / denominator)\<^sup>2]))"

definition compute_ms :: "ndarray \<Rightarrow> ndarray \<Rightarrow> py_error + metric" where
  "compute_ms F true_pf =
     and_then (axis_min F) (\<lambda>F_min.
     and_then (axis_max F) (\<lambda>F_max.
     and_then (axis_min true_pf) (\<lambda>true_min.
     and_then (axis_max true_pf) (\<lambda>true_max.
     and_then (fold_err (ms_component F_min F_max true_min true_max) [] [0..<ncols F])
       (\<lambda>ms_components.
          Inr (if ncols F = 0 then NaN
               else Value (sqrt (sum_list ms_components / real (ncols F)))))))))"

text \<open>
  compute_sp: \<^verbatim>\<open>cdist\<close> is the Euclidean distance of every pair of rows; the diagonal
  is set to infinity, so \<open>D\<close> holds the distance of every point to its nearest other
  point. The guards on infinite and NaN values cannot fire on real inputs with two
  points or more and are left out.
\<close>

definition euclidean :: "vec \<Rightarrow> vec \<Rightarrow> real" where
  "euclidean x y = sqrt (sum_list (map (\<lambda>(a, b). (a - b)\<^sup>2) (zip x y)))"

definition compute_sp :: "ndarray \<Rightarrow> metric" where
  "compute_sp F =
     (if nrows F < 2 then Value 0
      else
        let n = nrows F;
            D = map (\<lambda>i. amin (map (\<lambda>j. euclidean (rows F ! i) (rows F ! j))
                                  (filter (\<lambda>j. j \<noteq> i) [0..<n]))) [0..<n];
            mean_D = sum_list D / real (length D)
        in Value (sqrt (sum_list (map (\<lambda>d. (d - mean_D)\<^sup>2) D) / real (length D - 1))))"

definition ms_true_pf :: ndarray where
  "ms_true_pf = NDArray 1 [[0], [1]]"

section \<open>Array operations of numpy\<close>

text \<open>\<^verbatim>\<open>np.vstack\<close>: the arrays must have the same width.\<close>

definition vstack :: "ndarray list \<Rightarrow> py_error + ndarray" where
  "vstack As =
     (case As of
        [] \<Rightarrow> Inl ValueError
      | A # Bs \<Rightarrow>
          if list_all (\<lambda>B. ncols B = ncols A) Bs
          then Inr (NDArray (ncols A) (concat (map rows As)))
          else Inl ValueError)"

text \<open>\<^verbatim>\<open>A[idx]\<close> raises IndexError on an index that is not a row of \<open>A\<close>.\<close>

definition index_rows :: "ndarray \<Rightarrow> nat list \<Rightarrow> py_error + ndarray" where
  "index_rows A idx =
     (if list_all (\<lambda>i. i < nrows A) idx then Inr (take_rows A idx) else Inl IndexError)"

text \<open>\<^verbatim>\<open>A[:, idx]\<close>: the columns at these indices.\<close>

definition index_cols :: "ndarray \<Rightarrow> nat list \<Rightarrow> py_error + ndarray" where
  "index_cols A idx =
     (if list_all (\<lambda>j. j < ncols A) idx
      then Inr (NDArray (length idx) (map (\<lambda>r. map (\<lambda>j. r ! j) idx) (rows A)))
      else Inl IndexError)"

text \<open>
  \<^verbatim>\<open>np.array(saved)\<close> for a Python list of rows: rows of different lengths raise
  ValueError; the empty list gives \<^verbatim>\<open>np.array([])\<close>.
\<close>

definition np_array :: "vec list \<Rightarrow> py_error + ndarray" where
  "np_array xs =
     (case xs of
        [] \<Rightarrow> Inr (NDArray 0 [])
      | x # ys \<Rightarrow>
          if list_all (\<lambda>y. length y = length x) ys then Inr (NDArray (length x) xs)
          else Inl ValueError)"

definition eye :: "nat \<Rightarrow> ndarray" where
  "eye n = NDArray n (map (\<lambda>i. map (\<lambda>j. if i = j then 1 else 0) [0..<n]) [0..<n])"

definition scale :: "real \<Rightarrow> ndarray \<Rightarrow> ndarray" where
  "scale c A = NDArray (ncols A) (map (map (\<lambda>x. c * x)) (rows A))"

definition mat_add :: "ndarray \<Rightarrow> ndarray \<Rightarrow> py_error + ndarray" where
  "mat_add A B =
     (if ncols A = ncols B \<and> nrows A = nrows B
      then Inr (NDArray (ncols A) (map (\<lambda>(r, q). map (\<lambda>(x, y). x + y) (zip r q)) (zip (rows A) (rows B))))
      else Inl ValueError)"

text \<open>\<^verbatim>\<open>A @ B\<close>: the inner dimensions must agree.\<close>

definition matmul :: "ndarray \<Rightarrow> ndarray \<Rightarrow> py_error + ndarray" where
  "matmul A B =
     (if ncols A = nrows B
      then Inr (NDArray (ncols B)
             (map (\<lambda>r. map (\<lambda>j. sum_list (map (\<lambda>k. r ! k * entry B k j) [0..<ncols A]))
                          [0..<ncols B])
                  (rows A)))
      else Inl ValueError)"

definition transpose_array :: "ndarray \<Rightarrow> ndarray" where
  "transpose_array A = NDArray (nrows A) (map (\<lambda>j. column A j) [0..<ncols A])"

text \<open>
  \<^verbatim>\<open>np.random.uniform(low, high, (n, c))\<close>: \<open>low\<close> and \<open>high\<close> are broadcast against
  the \<open>c\<close> columns, which needs length \<open>c\<close> or 1, and a negative row count is refused;
  both raise ValueError. The sample is \<open>low + (high - low) * u\<close> for the unit samples
  \<open>u\<close>, which are an argument of the model.
\<close>

definition broadcast :: "vec \<Rightarrow> nat \<Rightarrow> (nat \<Rightarrow> real) option" where
  "broadcast v c =
     (if length v = c then Some (\<lambda>j. v ! j)
      else if length v = 1 then Some (\<lambda>j. v ! 0)
      else None)"

definition uniform :: "vec \<Rightarrow> vec \<Rightarrow> int \<Rightarrow> nat \<Rightarrow> (nat \<Rightarrow> nat \<Rightarrow> real) \<Rightarrow> py_error + ndarray" where
  "uniform low high n c u =
     (if n < 0 then Inl ValueError
      else case broadcast low c of
        None \<Rightarrow> Inl ValueError
      | Some lo \<Rightarrow>
          (case broadcast high c of
             None \<Rightarrow> Inl ValueError
           | Some hi \<Rightarrow>
               Inr (NDArray c (map (\<lambda>i. map (\<lambda>j. lo j + (hi j - lo j) * u i j) [0..<c])
                                 [0..<nat n]))))"

section \<open>TCA: the subspace alignment\<close>

record tca =
  dim :: nat
  kernel_type :: string
  lamb :: real
  gamma :: real

text \<open>
  \<^verbatim>\<open>sklearn.metrics.pairwise.rbf_kernel(X, Y, gamma)\<close>, from the library's
  documentation: \<open>exp (- gamma * ||x - y||^2)\<close> for every row \<open>x\<close> of \<open>X\<close> and \<open>y\<close>
  of \<open>Y\<close>; the input check refuses an array without rows or without columns, and
  arrays of different widths, with ValueError.
\<close>

definition sq_dist :: "vec \<Rightarrow> vec \<Rightarrow> real" where
  "sq_dist x y = sum_list (map (\<lambda>(a, b). (a - b)\<^sup>2) (zip x y))"

definition rbf_kernel :: "ndarray \<Rightarrow> ndarray \<Rightarrow> real \<Rightarrow> py_error + ndarray" where
  "rbf_kernel X Y g =
     (if nrows X = 0 \<or> nrows Y = 0 \<or> ncols X = 0 \<or> ncols X \<noteq> ncols Y then Inl ValueError
      else Inr (NDArray (nrows Y)
             (map (\<lambda>x. map (\<lambda>y. exp (- g * sq_dist x y)) (rows Y)) (rows X))))"

text \<open>
  \<^verbatim>\<open>TCA._kernel(X1, X2=None)\<close>. The linear branch reads \<^verbatim>\<open>X2.T\<close> before any
  default is set, which raises AttributeError on None; a kernel type that is neither
  'linear' nor 'rbf' falls off the end of the method, which returns None.
\<close>

definition kernel :: "tca \<Rightarrow> ndarray \<Rightarrow> ndarray option \<Rightarrow> py_error + ndarray option" where
  "kernel self X1 X2 =
     (if kernel_type self = ''linear'' then
        (case X2 of
           None \<Rightarrow> Inl AttributeError
         | Some Y \<Rightarrow> and_then (matmul X1 (transpose_array Y)) (\<lambda>K. Inr (Some K)))
      else if kernel_type self = ''rbf'' then
        and_then (rbf_kernel X1 (case X2 of None \<Rightarrow> X1 | Some Y \<Rightarrow> Y) (gamma self))
          (\<lambda>K. Inr (Some K))
      else Inr None)"

text \<open>
  The block matrix \<open>L\<close> of fit_transform. \<^verbatim>\<open>1.0 / (ns**2)\<close> and \<^verbatim>\<open>1.0 / (nt**2)\<close>
  are Python divisions: ZeroDivisionError for an empty source or target.
\<close>

definition tca_L :: "nat \<Rightarrow> nat \<Rightarrow> py_error + ndarray" where
  "tca_L ns nt =
     (if ns = 0 then Inl ZeroDivisionError
      else if nt = 0 then Inl ZeroDivisionError
      else Inr (NDArray (ns + nt)
             (map (\<lambda>i. map (\<lambda>j.
                     if i < ns \<and> j < ns then 1 / (real ns)\<^sup>2
                     else if ns \<le> i \<and> ns \<le> j then 1 / (real nt)\<^sup>2
                     else - 1 / (real ns * real nt)) [0..<ns + nt])
                  [0..<ns + nt])))"

text \<open>
  \<^verbatim>\<open>TCA.fit_transform(Xs, Xt)\<close>. \<open>np.linalg.inv\<close> and \<open>np.linalg.eigh\<close> are
  parameters: \<open>None\<close> is numpy's LinAlgError. The centering matrix \<open>H\<close> is
  computed and never read; it cannot raise once \<open>L\<close> is built.
\<close>

definition fit_transform ::
  "(fl list \<Rightarrow> nat list) \<Rightarrow> (ndarray \<Rightarrow> ndarray option) \<Rightarrow> (ndarray \<Rightarrow> (vec \<times> ndarray) option) \<Rightarrow>
   tca \<Rightarrow> ndarray \<Rightarrow> ndarray \<Rightarrow> py_error + ndarray" where
  "fit_transform argsort linalg_inv linalg_eigh self Xs Xt =
     and_then (vstack [Xs, Xt]) (\<lambda>X_all.
     let ns = nrows Xs; nt = nrows Xt in
     and_then (kernel self X_all None) (\<lambda>K_opt.
     and_then (tca_L ns nt) (\<lambda>L.
     case K_opt of
       None \<Rightarrow> Inl TypeError
     | Some K \<Rightarrow>
     and_then (mat_add K (scale (lamb self) (eye (ns + nt)))) (\<lambda>M.
     case linalg_inv M of
       None \<Rightarrow> Inl LinAlgError
     | Some Mi \<Rightarrow>
     and_then (matmul Mi K) (\<lambda>Kc.
     and_then (matmul Kc L) (\<lambda>KcL.
     and_then (matmul KcL Kc) (\<lambda>A.
     case linalg_eigh A of
       None \<Rightarrow> Inl LinAlgError
     | Some (eigvals, eigvecs) \<Rightarrow>
     let idx = take (dim self) (argsort (map (\<lambda>v. Fin (- v)) eigvals)) in
     and_then (index_cols eigvecs idx) (\<lambda>W.
     and_then (matmul K W) (\<lambda>Z.
     Inr (NDArray (ncols Z) (take ns (rows Z))))))))))))"

text \<open>The matrix that fit_transform hands to \<open>np.linalg.inv\<close>: \<open>K + lamb * I\<close>.\<close>

definition ridge_matrix :: "tca \<Rightarrow> ndarray \<Rightarrow> ndarray \<Rightarrow> py_error + ndarray" where
  "ridge_matrix self Xs Xt =
     and_then (vstack [Xs, Xt]) (\<lambda>X_all.
     and_then (rbf_kernel X_all X_all (gamma self)) (\<lambda>K.
     mat_add K (scale (lamb self) (eye (nrows Xs + nrows Xt)))))"

definition transfer_tca :: tca where
  "transfer_tca = \<lparr>dim = 10, kernel_type = ''rbf'', lamb = 1, gamma = 4 / 10\<rparr>"

definition transfer_solutions ::
  "(fl list \<Rightarrow> nat list) \<Rightarrow> (ndarray \<Rightarrow> ndarray option) \<Rightarrow> (ndarray \<Rightarrow> (vec \<times> ndarray) option) \<Rightarrow>
   ndarray \<Rightarrow> ndarray \<Rightarrow> py_error + ndarray" where
  "transfer_solutions argsort linalg_inv linalg_eigh source_data target_data =
     fit_transform argsort linalg_inv linalg_eigh transfer_tca source_data target_data"

text \<open>
  What numpy guarantees about the shapes: the inverse has the shape of its argument,
  and \<open>eigh\<close> of an \<open>n \<times> n\<close> matrix returns \<open>n\<close> eigenvalues and an \<open>n \<times> n\<close>
  matrix of eigenvectors.
\<close>

definition inv_shape :: "(ndarray \<Rightarrow> ndarray option) \<Rightarrow> bool" where
  "inv_shape linalg_inv \<longleftrightarrow>
     (\<forall>M Mi. linalg_inv M = Some Mi \<longrightarrow> ncols Mi = ncols M \<and> nrows Mi = nrows M)"

definition eigh_shape :: "(ndarray \<Rightarrow> (vec \<times> ndarray) option) \<Rightarrow> bool" where
  "eigh_shape linalg_eigh \<longleftrightarrow>
     (\<forall>A w V. linalg_eigh A = Some (w, V) \<longrightarrow>
        length w = nrows A \<and> ncols V = nrows A \<and> nrows V = nrows A)"

text \<open>
  When they raise: \<open>np.linalg.inv\<close> raises LinAlgError on a square matrix only when
  the matrix is singular, that is, when it maps some vector other than zero to zero;
  \<open>np.linalg.eigh\<close> returns for every square matrix.
\<close>

definition singular :: "ndarray \<Rightarrow> bool" where
  "singular M \<longleftrightarrow>
     (\<exists>v. length v = ncols M \<and> (\<exists>j<ncols M. v ! j \<noteq> 0) \<and>
          (\<forall>i<nrows M. (\<Sum>j<ncols M. entry M i j * v ! j) = 0))"

definition inv_regular :: "(ndarray \<Rightarrow> ndarray option) \<Rightarrow> bool" where
  "inv_regular linalg_inv \<longleftrightarrow>
     (\<forall>M. nrows M = ncols M \<and> linalg_inv M = None \<longrightarrow> singular M)"

definition eigh_total :: "(ndarray \<Rightarrow> (vec \<times> ndarray) option) \<Rightarrow> bool" where
  "eigh_total linalg_eigh \<longleftrightarrow> (\<forall>A. nrows A = ncols A \<longrightarrow> linalg_eigh A \<noteq> None)"

text \<open>
  A kernel with finitely many features is a finite sum of products \<open>f x * f y\<close>.
  Its Gram matrices are positive semidefinite, and the Gaussian kernel of
  \<open>rbf_kernel\<close> is a limit of such kernels; this is what makes \<open>K + lamb * I\<close>
  regular for a positive \<open>lamb\<close>.
\<close>

inductive feature_kernel :: "('a \<Rightarrow> 'a \<Rightarrow> real) \<Rightarrow> bool" where
  rank_one: "feature_kernel (\<lambda>x y. f x * f y)"
| plus: "feature_kernel k1 \<Longrightarrow> feature_kernel k2 \<Longrightarrow> feature_kernel (\<lambda>x y. k1 x y + k2 x y)"

text \<open>
  Two library results that can be written down exactly: the inverse of a regular
  \<open>2 \<times> 2\<close> matrix, and the eigenvalues (all zero) and eigenvectors (the unit
  vectors) of a zero matrix.
\<close>

definition inv2 :: "ndarray \<Rightarrow> ndarray option" where
  "inv2 M =
     (let det = entry M 0 0 * entry M 1 1 - entry M 0 1 * entry M 1 0
      in if ncols M = 2 \<and> nrows M = 2 \<and> det \<noteq> 0
         then Some (NDArray 2 [[entry M 1 1 / det, - entry M 0 1 / det],
                               [- entry M 1 0 / det, entry M 0 0 / det]])
         else None)"

definition eigh_zero :: "ndarray \<Rightarrow> (vec \<times> ndarray) option" where
  "eigh_zero A =
     (if ncols A = nrows A \<and> list_all (list_all (\<lambda>x. x = 0)) (rows A)
      then Some (replicate (nrows A) 0, eye (nrows A))
      else None)"

text \<open>
  Stand-ins that meet the four contracts. \<open>inv_total2\<close> is the exact inverse on
  \<open>2 \<times> 2\<close> matrices (it raises on the singular ones) and keeps every other
  matrix. \<open>eigh_diff2\<close> is exact on the matrices \<open>[[a, -a], [-a, a]]\<close> with
  \<open>0 < a\<close>: the eigenvalues in ascending order are \<open>0\<close> and \<open>2 * a\<close>, with the
  normalized eigenvectors \<open>(1, 1) / sqrt 2\<close> and \<open>(1, -1) / sqrt 2\<close> as the
  columns; on every other matrix it returns zeros and the unit vectors.
\<close>

definition inv_total2 :: "ndarray \<Rightarrow> ndarray option" where
  "inv_total2 M = (if ncols M = 2 \<and> nrows M = 2 then inv2 M else Some M)"

definition eigh_diff2 :: "ndarray \<Rightarrow> (vec \<times> ndarray) option" where
  "eigh_diff2 A =
     (let a = entry A 0 0
      in if ncols A = 2 \<and> 0 < a \<and> rows A = [[a, - a], [- a, a]]
         then Some ([0, 2 * a],
                NDArray 2 [[1 / sqrt 2, 1 / sqrt 2], [1 / sqrt 2, - (1 / sqrt 2)]])
         else Some (replicate (nrows A) 0, eye (nrows A)))"

definition one_point :: ndarray where
  "one_point = NDArray 1 [[0]]"

definition unit_point :: ndarray where
  "unit_point = NDArray 1 [[1]]"

definition ones2 :: ndarray where
  "ones2 = NDArray 2 [[1, 1], [1, 1]]"


section \<open>The environment and select_subset\<close>

text \<open>
  What the program reads of a pymoo problem: the dimensions, the bounds, the
  objective values of one decision vector (\<^verbatim>\<open>out["F"][0]\<close> after \<^verbatim>\<open>_evaluate\<close> on
  the one-row array), and the true Pareto front.
\<close>

record problem =
  n_var :: nat
  n_obj :: nat
  xl :: vec
  xu :: vec
  evaluate :: "vec \<Rightarrow> vec"
  pareto_front :: ndarray

text \<open>
  \<^verbatim>\<open>F_saved[i] = out["F"][0]\<close>: a row of the width of \<open>F_saved\<close> is stored, a single
  value is broadcast, any other width raises ValueError.
\<close>

definition assign_row :: "nat \<Rightarrow> vec \<Rightarrow> py_error + vec" where
  "assign_row n v =
     (if length v = n then Inr v
      else if length v = 1 then Inr (replicate n (v ! 0))
      else Inl ValueError)"

definition evaluate_rows :: "problem \<Rightarrow> vec list \<Rightarrow> py_error + ndarray" where
  "evaluate_rows p xs =
     and_then
       (fold_err (\<lambda>acc ind. and_then (assign_row (n_obj p) (evaluate p ind)) (\<lambda>r. Inr (acc @ [r])))
          [] xs)
       (\<lambda>F_rows. Inr (NDArray (n_obj p) F_rows))"

definition select_subset ::
  "(fl list \<Rightarrow> nat list) \<Rightarrow> vec list \<Rightarrow> problem \<Rightarrow> nat \<Rightarrow> py_error + ndarray" where
  "select_subset argsort saved p max_elements =
     and_then (np_array saved) (\<lambda>source.
     let n = nrows source in
     if n = 0 then Inr (NDArray 0 [])
     else if n \<le> max_elements then Inr source
     else
       and_then (evaluate_rows p (rows source)) (\<lambda>F_saved.
       let best_indices = take max_elements (argsort (map (\<lambda>r. Fin (sum_list r)) (rows F_saved)))
       in index_rows source best_indices))"

section \<open>The driver\<close>

definition frequency_of_change :: nat where
  "frequency_of_change = 10"

definition severity :: nat where
  "severity = 10"

text \<open>The driver sets \<^verbatim>\<open>num_changes = 9  # number of changes\<close> and never reads it.\<close>

definition num_changes :: nat where
  "num_changes = 9"

definition population_size :: nat where
  "population_size = 100"

text \<open>The driver's global \<^verbatim>\<open>max_save\<close>; the parameter of save_elite_solutions has its name.\<close>

definition driver_max_save :: nat where
  "driver_max_save = 1000"

definition save_each_prob :: nat where
  "save_each_prob = 50"

text \<open>\<^verbatim>\<open>range(start, stop, step)\<close> for a positive step.\<close>

definition py_range :: "nat \<Rightarrow> nat \<Rightarrow> nat \<Rightarrow> nat list" where
  "py_range start stop step =
     map (\<lambda>k. start + k * step) [0..<(stop - start + step - 1) div step]"

text \<open>
  \<^verbatim>\<open>time_steps = np.array([np.floor(i / frequency_of_change) / severity
     for i in range(0, 201, 10)])\<close>
\<close>

definition time_steps :: "real list" where
  "time_steps =
     map (\<lambda>i. real_of_int \<lfloor>real i / real frequency_of_change\<rfloor> / real severity)
       (py_range 0 201 10)"

text \<open>
  The collaborators of the loop that are not code of the repository: numpy's sort and
  linear algebra, pymoo's problem constructor (\<^verbatim>\<open>DF14(time=t)\<close>), optimizer
  (\<^verbatim>\<open>minimize\<close>, called at step \<open>idx\<close> with the problem and, after the first step,
  the seed population; it returns \<open>res.X\<close> and \<open>res.F\<close>), non-dominated sorting
  (\<^verbatim>\<open>NonDominatedSorting().do(F, only_non_dominated_front=True)\<close>) and IGD.
\<close>

record libs =
  np_argsort :: "fl list \<Rightarrow> nat list"
  np_inv :: "ndarray \<Rightarrow> ndarray option"
  np_eigh :: "ndarray \<Rightarrow> (vec \<times> ndarray) option"
  nds_do :: "ndarray \<Rightarrow> nat list"
  make_problem :: "real \<Rightarrow> problem"
  nsga2_minimize :: "nat \<Rightarrow> problem \<Rightarrow> ndarray option \<Rightarrow> ndarray \<times> ndarray"
  igd_do :: "ndarray \<Rightarrow> ndarray \<Rightarrow> real"

text \<open>
  The random numbers one step of the loop consumes, in the order of the calls: the
  unit samples of the three \<open>np.random.uniform\<close> calls and the index draws of the three
  \<open>np.random.choice\<close> calls (one in the seed construction, two in
  save_elite_solutions).
\<close>

record step_draws =
  target_u :: "nat \<Rightarrow> nat \<Rightarrow> real"
  transfer_pick :: "nat list"
  random_u :: "nat \<Rightarrow> nat \<Rightarrow> real"
  fill_u :: "nat \<Rightarrow> nat \<Rightarrow> real"
  elite_pick1 :: "nat list"
  elite_pick2 :: "nat list"

text \<open>
  The seed population of a step after the first: the \<open>else\<close> branch of the loop body
  from \<^verbatim>\<open>xl = problem.xl\<close> to \<^verbatim>\<open>full_sampling = np.vstack(...)\<close>, statement by
  statement. \<open>n_needed\<close> is a Python integer and can be negative, which
  \<open>np.random.uniform\<close> refuses.
\<close>

definition build_seed :: "libs \<Rightarrow> step_draws \<Rightarrow> problem \<Rightarrow> vec list \<Rightarrow> py_error + ndarray" where
  "build_seed L dr p saved =
     and_then (uniform (xl p) (xu p) 50 10 (target_u dr)) (\<lambda>random_target_population.
     and_then (select_subset (np_argsort L) saved p 100) (\<lambda>subset.
     and_then (transfer_solutions (np_argsort L) (np_inv L) (np_eigh L) subset
                 random_target_population) (\<lambda>transferred_population.
     and_then (evaluate_rows p saved) (\<lambda>F_saved.
     let nds = nds_do L F_saved in
     and_then (np_array saved) (\<lambda>saved_array.
     and_then (index_rows saved_array nds) (\<lambda>nd_front.
     and_then (index_rows F_saved nds) (\<lambda>F_nd_front.
     and_then (crowding_distance (np_argsort L) F_nd_front) (\<lambda>cd.
     let selected_indices = take 40 (np_argsort L (map fl_neg cd)) in
     and_then (index_rows nd_front selected_indices) (\<lambda>best_40_population.
     let selected_indices = transfer_pick dr in
     and_then (index_rows transferred_population selected_indices) (\<lambda>selected_transferred.
     and_then (uniform (xl p) (xu p) 20 10 (random_u dr)) (\<lambda>random_target_population.
     and_then (vstack [selected_transferred, random_target_population, best_40_population])
       (\<lambda>final_initial_population.
     let n_needed = int population_size - int (nrows final_initial_population) in
     and_then (uniform (xl p) (xu p) n_needed (n_var p) (fill_u dr)) (\<lambda>random_fill.
     vstack [final_initial_population, random_fill])))))))))))))"

text \<open>What the loop carries from step to step: the archive and the recorded results.\<close>

record run_state =
  st_saved :: "vec list"
  st_migd_vals :: "real list"
  st_sp_vals :: "metric list"
  st_ms_vals :: "metric list"
  st_fronts :: "ndarray list"

definition initial_state :: run_state where
  "initial_state =
     \<lparr>st_saved = [], st_migd_vals = [], st_sp_vals = [], st_ms_vals = [], st_fronts = []\<rparr>"

text \<open>
  The body of \<^verbatim>\<open>for idx, t_unit in enumerate(time_steps)\<close>. The first step
  optimizes from Latin hypercube sampling (no seed population); every later step
  builds the seed population first. No statement of the body is inside a
  \<open>try\<close>: an exception of any call ends the run.
\<close>

definition env_step ::
  "libs \<Rightarrow> (nat \<Rightarrow> step_draws) \<Rightarrow> run_state \<Rightarrow> nat \<times> real \<Rightarrow> py_error + run_state" where
  "env_step L draws st it =
     (let idx = fst it; t = snd it;
          p = make_problem L t;
          dr = draws idx
      in and_then
           (if idx = 0 then Inr None
            else and_then (build_seed L dr p (st_saved st)) (\<lambda>full_sampling. Inr (Some full_sampling)))
           (\<lambda>sampling.
              let res = nsga2_minimize L idx p sampling;
                  res_X = fst res; res_F = snd res;
                  true_pf = pareto_front p;
                  migd = igd_do L true_pf res_F;
                  sp = compute_sp res_F
              in and_then (compute_ms res_F true_pf) (\<lambda>ms.
                   Inr \<lparr>st_saved =
                          save_elite_solutions p (rows res_X) res_F driver_max_save (st_saved st)
                            save_each_prob (elite_pick1 dr) (elite_pick2 dr),
                        st_migd_vals = st_migd_vals st @ [migd],
                        st_sp_vals = st_sp_vals st @ [sp],
                        st_ms_vals = st_ms_vals st @ [ms],
                        st_fronts = st_fronts st @ [res_F]\<rparr>)))"

definition enumerate_list :: "'a list \<Rightarrow> (nat \<times> 'a) list" where
  "enumerate_list xs = zip [0..<length xs] xs"

text \<open>One run of the driver (\<open>num_runs = 1\<close>): the loop over the time steps.\<close>

definition run_loop :: "libs \<Rightarrow> (nat \<Rightarrow> step_draws) \<Rightarrow> py_error + run_state" where
  "run_loop L draws = fold_err (env_step L draws) initial_state (enumerate_list time_steps)"

text \<open>
  What pymoo guarantees about the first front of a set of points that is not empty: it is
  not empty, and its members are points of the set.
\<close>

definition nds_spec :: "(ndarray \<Rightarrow> nat list) \<Rightarrow> bool" where
  "nds_spec nds \<longleftrightarrow>
     (\<forall>F. 1 \<le> nrows F \<longrightarrow> nds F \<noteq> [] \<and> list_all (\<lambda>i. i < nrows F) (nds F))"

text \<open>
  The archive holds rows of one width; \<open>objective_sums\<close> are the sums that
  select_subset ranks by, for a problem whose evaluation has \<open>n_obj\<close> values.
\<close>

definition rectangular :: "vec list \<Rightarrow> bool" where
  "rectangular xs \<longleftrightarrow> list_all (\<lambda>y. length y = length (hd xs)) xs"

definition objective_sums :: "problem \<Rightarrow> vec list \<Rightarrow> real list" where
  "objective_sums p xs = map (\<lambda>x. sum_list (evaluate p x)) xs"

definition example_problem :: problem where
  "example_problem =
     \<lparr>n_var = 1, n_obj = 2, xl = [0], xu = [5], evaluate = (\<lambda>x. [x ! 0, 1]),
      pareto_front = NDArray 2 [[0, 1]]\<rparr>"

subsection \<open>Example environments\<close>

text \<open>
  Two problems with two objectives, of ten and of three decision variables, and
  stand-ins for the collaborators: an optimizer that returns the zero vector, a front
  that keeps the first point, and linear algebra that never raises and keeps the
  shapes (\<open>libs_double\<close>). The theorems about the loop read no more of \<open>inv\<close> and
  \<open>eigh\<close> than their shapes and whether they raise.
\<close>

definition problem10 :: problem where
  "problem10 =
     \<lparr>n_var = 10, n_obj = 2, xl = replicate 10 0, xu = replicate 10 1,
      evaluate = (\<lambda>x. [x ! 0, 1 - x ! 0]), pareto_front = NDArray 2 [[0, 1], [1, 0]]\<rparr>"

definition problem3 :: problem where
  "problem3 =
     \<lparr>n_var = 3, n_obj = 2, xl = [0, 0, 0], xu = [1, 1, 1],
      evaluate = (\<lambda>x. [x ! 0, 1 - x ! 0]), pareto_front = NDArray 2 [[0, 1], [1, 0]]\<rparr>"

definition zero10 :: vec where
  "zero10 = replicate 10 0"

definition libs_double :: libs where
  "libs_double =
     \<lparr>np_argsort = argsort_stable,
      np_inv = (\<lambda>M. Some M),
      np_eigh = (\<lambda>A. Some (replicate (nrows A) 0, eye (nrows A))),
      nds_do = (\<lambda>F. [0]),
      make_problem = (\<lambda>t. problem10),
      nsga2_minimize = (\<lambda>idx p sampling. (NDArray 10 [zero10], NDArray 2 [[0, 1]])),
      igd_do = (\<lambda>true_pf F. 0)\<rparr>"

definition draws_example :: "nat \<Rightarrow> step_draws" where
  "draws_example idx =
     \<lparr>target_u = (\<lambda>i j. 0), transfer_pick = [0..<min 40 idx], random_u = (\<lambda>i j. 0),
      fill_u = (\<lambda>i j. 0), elite_pick1 = [], elite_pick2 = []\<rparr>"

section \<open>Properties of the archive\<close>

lemma save_elite_solutions_pool:
  "save_elite_solutions problem var obj max_save solutions max_per_problem r1 r2 =
     (let combined = combined_pool solutions var max_per_problem r1
      in if length combined > max_save then map (\<lambda>i. combined ! i) r2 else combined)"
  by (simp add: save_elite_solutions_def combined_pool_def Let_def)

lemma save_elite_solutions_length:
  assumes "call_ok max_save max_per_problem solutions c"
  shows "length (save_elite_solutions problem (new_var c) obj max_save solutions
           max_per_problem (draw1 c) (draw2 c)) \<le> max_save"
  using assms
  by (auto simp: save_elite_solutions_pool call_ok_def choice_ok_def Let_def split: if_splits)


lemma mset_map_nth_subset:
  assumes "distinct r" "list_all (\<lambda>i. i < length xs) r"
  shows "mset (map (\<lambda>i. xs ! i) r) \<subseteq># mset xs"
proof -
  have "set r \<subseteq> {0..<length xs}" using assms(2) by (auto simp: list_all_iff)
  then have "mset_set (set r) \<subseteq># mset_set {0..<length xs}"
    by (simp add: subset_imp_msubset_mset_set)
  moreover have "mset r = mset_set (set r)" using assms(1) by (simp add: mset_set_set)
  ultimately have "mset r \<subseteq># mset_set {0..<length xs}" by simp
  then have "image_mset (\<lambda>i. xs ! i) (mset r) \<subseteq># image_mset (\<lambda>i. xs ! i) (mset_set {0..<length xs})"
    by (rule image_mset_subseteq_mono)
  moreover have "image_mset (\<lambda>i. xs ! i) (mset_set {0..<length xs}) = mset xs"
    by (metis map_nth mset_map mset_upt)
  ultimately show ?thesis by simp
qed

lemma run_updates_length:
  "draws_ok max_save mpp sol calls \<Longrightarrow> length sol \<le> max_save \<Longrightarrow>
   length (run_updates max_save mpp sol (take k calls)) \<le> max_save"
proof (induction calls arbitrary: sol k)
  case Nil
  then show ?case by simp
next
  case (Cons c cs)
  show ?case
  proof (cases k)
    case 0
    then show ?thesis using Cons.prems by simp
  next
    case (Suc j)
    have ok: "call_ok max_save mpp sol c" using Cons.prems(1) by simp
    have "length (save_elite_solutions () (new_var c) () max_save sol mpp (draw1 c) (draw2 c)) \<le> max_save"
      using ok by (rule save_elite_solutions_length)
    moreover have "draws_ok max_save mpp (save_elite_solutions () (new_var c) () max_save sol mpp (draw1 c) (draw2 c)) cs"
      using Cons.prems(1) by simp
    ultimately show ?thesis using Cons.IH Suc by simp
  qed
qed

lemma choice_count:
  assumes "S \<subseteq> {..<n}" "card S = k"
  shows "card {r. choice_ok n k r \<and> set r = S} = fact k"
proof -
  have fin: "finite S" using assms(1) finite_subset by blast
  have "{r. choice_ok n k r \<and> set r = S} = {r. length r = card S \<and> distinct r \<and> set r \<subseteq> S}"
  proof (intro set_eqI iffI; clarify)
    fix r assume "choice_ok n k r" "S = set r"
    then show "length r = card (set r) \<and> distinct r \<and> set r \<subseteq> set r"
      by (simp add: choice_ok_def distinct_card)
  next
    fix r assume a: "length r = card S" "distinct r" "set r \<subseteq> S"
    then have "card (set r) = card S" by (simp add: distinct_card)
    then have "set r = S" using a(3) fin by (simp add: card_subset_eq)
    then show "choice_ok n k r \<and> set r = S"
      using a assms by (auto simp: choice_ok_def list_all_iff)
  qed
  moreover have "card {r. length r = card S \<and> distinct r \<and> set r \<subseteq> S} = \<Prod>{card S - card S + 1 .. card S}"
    using fin by (rule card_lists_distinct_length_eq) simp
  ultimately show ?thesis using assms(2) by (simp add: fact_prod)
qed

text \<open>
  Claim C1. Whatever the populations and the draws of a sequence of calls that starts
  from the empty archive, the archive holds at most \<open>max_save\<close> vectors after every
  call. When the pool (old archive, then the capped new contribution) is larger than
  \<open>max_save\<close>, the new archive is the pool at the \<open>max_save\<close> drawn indices: it
  has exactly \<open>max_save\<close> members, all taken from the pool, and the objective values
  play no part. Every set of \<open>max_save\<close> indices of the pool is the index set of
  the same number of draws, so a draw that is uniform makes the retained subset uniform.
\<close>

theorem archive_never_exceeds_max_save:
  "(draws_ok max_save max_per_problem [] calls \<longrightarrow>
      (\<forall>k\<le>length calls.
         length (run_updates max_save max_per_problem [] (take k calls)) \<le> max_save)) \<and>
   (length (combined_pool solutions var max_per_problem r1) > max_save \<and>
    choice_ok (length (combined_pool solutions var max_per_problem r1)) max_save r2 \<longrightarrow>
      save_elite_solutions problem var obj max_save solutions max_per_problem r1 r2 =
        map (\<lambda>i. combined_pool solutions var max_per_problem r1 ! i) r2 \<and>
      length (save_elite_solutions problem var obj max_save solutions max_per_problem r1 r2) = max_save \<and>
      mset (save_elite_solutions problem var obj max_save solutions max_per_problem r1 r2)
        \<subseteq># mset (combined_pool solutions var max_per_problem r1)) \<and>
   (S \<subseteq> {..<n} \<and> card S = max_save \<longrightarrow>
      card {r. choice_ok n max_save r \<and> set r = S} = fact max_save)"
proof (intro conjI impI allI)
  fix k
  assume "draws_ok max_save max_per_problem [] calls"
  then show "length (run_updates max_save max_per_problem [] (take k calls)) \<le> max_save"
    by (rule run_updates_length) simp
next
  assume a: "length (combined_pool solutions var max_per_problem r1) > max_save \<and>
    choice_ok (length (combined_pool solutions var max_per_problem r1)) max_save r2"
  then show eq: "save_elite_solutions problem var obj max_save solutions max_per_problem r1 r2 =
        map (\<lambda>i. combined_pool solutions var max_per_problem r1 ! i) r2"
    by (simp add: save_elite_solutions_pool)
  from a show "length (save_elite_solutions problem var obj max_save solutions max_per_problem r1 r2) = max_save"
    by (simp add: save_elite_solutions_pool choice_ok_def)
  from a show "mset (save_elite_solutions problem var obj max_save solutions max_per_problem r1 r2)
        \<subseteq># mset (combined_pool solutions var max_per_problem r1)"
    unfolding eq by (intro mset_map_nth_subset) (simp_all add: choice_ok_def)
next
  assume "S \<subseteq> {..<n} \<and> card S = max_save"
  then show "card {r. choice_ok n max_save r \<and> set r = S} = fact max_save"
    by (simp add: choice_count)
qed

theorem archive_never_exceeds_max_save_witness:
  "draws_ok 2 1 [] example_calls \<and>
   length (run_updates 2 1 [] (take 3 example_calls)) \<le> 2 \<and>
   run_updates 2 1 [] example_calls = [[4], [2]] \<and>
   length (combined_pool [[2], [3]] [[4], [5]] 1 [0]) > 2 \<and>
   choice_ok (length (combined_pool [[2], [3]] [[4], [5]] 1 [0])) 2 [2, 0] \<and>
   mset (save_elite_solutions () [[4], [5]] () 2 [[2], [3]] 1 [0] [2, 0])
     \<subseteq># mset (combined_pool [[2], [3]] [[4], [5]] 1 [0]) \<and>
   card {r. choice_ok 3 2 r \<and> set r = {0, 2}} = fact 2"
proof -
  have d: "draws_ok 2 1 [] example_calls"
    by (simp add: example_calls_def call_ok_def choice_ok_def combined_pool_def
        save_elite_solutions_def Let_def)
  have r: "run_updates 2 1 [] example_calls = [[4], [2]]"
    by (simp add: example_calls_def save_elite_solutions_def Let_def)
  have p: "length (combined_pool [[2], [3]] [[4], [5]] 1 [0]) > 2 \<and>
      choice_ok (length (combined_pool [[2], [3]] [[4], [5]] 1 [0])) 2 [2, 0]"
    by (simp add: combined_pool_def choice_ok_def)
  have s: "({0, 2}::nat set) \<subseteq> {..<3} \<and> card ({0, 2}::nat set) = 2" by simp
  note t = archive_never_exceeds_max_save[of 2 1 example_calls "[[2], [3]]" "[[4], [5]]" "[0]" "[2, 0]"
      "()" "()" "{0, 2}" 3]
  have len: "length example_calls = 3" by (simp add: example_calls_def)
  from t d have "\<forall>k\<le>length example_calls. length (run_updates 2 1 [] (take k example_calls)) \<le> 2"
    by blast
  then have "length (run_updates 2 1 [] (take 3 example_calls)) \<le> 2"
    using len by (metis order_refl)
  moreover from t p have "mset (save_elite_solutions () [[4], [5]] () 2 [[2], [3]] 1 [0] [2, 0])
     \<subseteq># mset (combined_pool [[2], [3]] [[4], [5]] 1 [0])" by blast
  moreover from t s have "card {r. choice_ok 3 2 r \<and> set r = {0, 2}} = fact 2" by blast
  ultimately show ?thesis using d r p by blast
qed

text \<open>
  Claim C5. When the new population is within the per-update cap and fits beside the
  archive within the global cap, the new archive is the old archive followed by the new
  population, whatever the draws: nothing is evicted. From the empty archive, ten
  items and the caps 1000 and 40 give exactly these ten items.
\<close>

theorem save_without_eviction:
  "(length var \<le> max_per_problem \<and> length var + length solutions \<le> max_save \<longrightarrow>
      save_elite_solutions problem var obj max_save solutions max_per_problem r1 r2
        = solutions @ var) \<and>
   (length ten = 10 \<longrightarrow> save_elite_solutions problem ten obj 1000 [] 40 r1 r2 = ten)"
  by (simp add: save_elite_solutions_def Let_def)

theorem save_without_eviction_witness:
  "length ten_items \<le> 40 \<and> length ten_items + length ([[7], [8]] :: vec list) \<le> 1000 \<and>
   save_elite_solutions () ten_items () 1000 [[7], [8]] 40 [] [] = [[7], [8]] @ ten_items \<and>
   length ten_items = 10 \<and>
   save_elite_solutions () ten_items () 1000 [] 40 [] [] = ten_items"
proof -
  have l: "length ten_items = 10" by (simp add: ten_items_def)
  show ?thesis
    using save_without_eviction[of ten_items 40 "[[7], [8]]" 1000 "()" "()" "[]" "[]" ten_items] l
    by simp
qed


section \<open>Properties of crowding_distance\<close>

lemma fl_add_zero: "fl_add x 0 = x"
  by (cases x) (simp_all add: fl_add_def)

lemma fl_add_PInf: "fl_add PInf d = PInf"
  by (simp add: fl_add_def)

lemma cd_interior_gap:
  "cd_interior F m s lo hi d i = d[s ! i := fl_add (d ! (s ! i)) (cd_gap F m s lo hi i)]"
  by (simp add: cd_interior_def cd_gap_def fl_add_zero)

lemma foldl_interior_length:
  "length (foldl (cd_interior F m s lo hi) d js) = length d"
  by (induction js arbitrary: d) (simp_all add: cd_interior_gap)

lemma foldl_interior_nth:
  assumes "distinct s" "list_all (\<lambda>i. i < length d) s"
  shows "k \<le> length s \<Longrightarrow> \<forall>p<length s.
           foldl (cd_interior F m s lo hi) d [1..<k] ! (s ! p) =
           (if 1 \<le> p \<and> p < k then fl_add (d ! (s ! p)) (cd_gap F m s lo hi p) else d ! (s ! p))"
proof (induction k)
  case 0
  then show ?case by simp
next
  case (Suc k)
  show ?case
  proof (cases "1 \<le> k")
    case False
    then show ?thesis by auto
  next
    case True
    have k: "k < length s" using Suc.prems by simp
    let ?r = "foldl (cd_interior F m s lo hi) d [1..<k]"
    have ih: "\<forall>p<length s. ?r ! (s ! p) =
           (if 1 \<le> p \<and> p < k then fl_add (d ! (s ! p)) (cd_gap F m s lo hi p) else d ! (s ! p))"
      using Suc.IH k by simp
    have len: "length ?r = length d" by (rule foldl_interior_length)
    have step: "foldl (cd_interior F m s lo hi) d [1..<Suc k] =
        ?r[s ! k := fl_add (?r ! (s ! k)) (cd_gap F m s lo hi k)]"
      using True by (simp add: cd_interior_gap)
    show ?thesis
    proof (intro allI impI)
      fix p assume p: "p < length s"
      have bound: "s ! k < length d" "s ! p < length d"
        using assms(2) k p by (simp_all add: list_all_length)
      have neq: "s ! k = s ! p \<longleftrightarrow> k = p"
        using assms(1) k p by (simp add: nth_eq_iff_index_eq)
      show "foldl (cd_interior F m s lo hi) d [1..<Suc k] ! (s ! p) =
           (if 1 \<le> p \<and> p < Suc k then fl_add (d ! (s ! p)) (cd_gap F m s lo hi p) else d ! (s ! p))"
      proof (cases "p = k")
        case True
        then show ?thesis using step ih k bound len \<open>1 \<le> k\<close> by simp
      next
        case False
        then have "foldl (cd_interior F m s lo hi) d [1..<Suc k] ! (s ! p) = ?r ! (s ! p)"
          using step neq by simp
        then show ?thesis using ih p False by auto
      qed
    qed
  qed
qed

lemma position_nth:
  assumes "distinct s" "p < length s"
  shows "length (takeWhile (\<lambda>i. i \<noteq> s ! p) s) = p"
proof -
  let ?q = "length (takeWhile (\<lambda>i. i \<noteq> s ! p) s)"
  have "p \<le> ?q"
  proof (rule length_takeWhile_less_P_nth)
    fix i assume "i < p"
    then show "s ! i \<noteq> s ! p" using assms by (simp add: nth_eq_iff_index_eq)
  next
    show "p \<le> length s" using assms(2) by simp
  qed
  moreover have "\<not> p < ?q"
  proof
    assume lt: "p < ?q"
    then have "takeWhile (\<lambda>i. i \<noteq> s ! p) s ! p = s ! p" by (rule takeWhile_nth)
    moreover have "takeWhile (\<lambda>i. i \<noteq> s ! p) s ! p \<in> set (takeWhile (\<lambda>i. i \<noteq> s ! p) s)"
      using lt by simp
    ultimately show False by (metis (mono_tags, lifting) set_takeWhileD)
  qed
  ultimately show ?thesis by simp
qed

lemma choice_full_surj:
  assumes "choice_ok n n s" "j < n"
  shows "\<exists>p<n. s ! p = j"
proof -
  have "card (set s) = n" using assms(1) by (simp add: choice_ok_def distinct_card)
  moreover have "set s \<subseteq> {..<n}" using assms(1) by (auto simp: choice_ok_def list_all_iff)
  ultimately have "set s = {..<n}" by (simp add: card_subset_eq)
  then have "j \<in> set s" using assms(2) by simp
  then show ?thesis using assms(1) by (auto simp: in_set_conv_nth choice_ok_def)
qed

lemma cd_objective_point:
  assumes ok: "argsort_ok (map Fin (column F m)) (cd_order argsort F m)"
    and n: "1 \<le> nrows F" and len: "length d = nrows F"
  shows "\<exists>d'. cd_objective argsort F d m = Inr d' \<and> length d' = nrows F \<and>
           (\<forall>j<nrows F. d' ! j =
              (if cd_extreme argsort F m j then PInf
               else fl_add (d ! j) (cd_contribution argsort F m j)))"
proof -
  define s where "s = cd_order argsort F m"
  define nn where "nn = nrows F"
  define lo where "lo = entry F (s ! 0) m"
  define hi where "hi = entry F (s ! (nn - 1)) m"
  define d1 where "d1 = (d[s ! 0 := PInf])[s ! (nn - 1) := PInf]"
  define d' where "d' = foldl (cd_interior F m s lo hi) d1 [1..<nn - 1]"
  have ch: "choice_ok nn nn s"
    using ok by (simp add: argsort_ok_def s_def nn_def column_def nrows_def)
  have ls: "length s = nn" and ds: "distinct s" and bs: "list_all (\<lambda>i. i < nn) s"
    using ch by (simp_all add: choice_ok_def)
  have l1: "length d1 = nn" by (simp add: d1_def len nn_def)
  have run: "cd_objective argsort F d m = Inr d'"
    using n by (simp add: cd_objective_def Let_def d'_def d1_def lo_def hi_def s_def nn_def cd_order_def)
  have ld: "length d' = nn" by (simp add: d'_def foldl_interior_length l1)
  have nth: "\<forall>p<length s. d' ! (s ! p) =
      (if 1 \<le> p \<and> p < nn - 1 then fl_add (d1 ! (s ! p)) (cd_gap F m s lo hi p) else d1 ! (s ! p))"
    unfolding d'_def using ds
  proof (rule foldl_interior_nth)
    show "list_all (\<lambda>i. i < length d1) s" using bs l1 by simp
    show "nn - 1 \<le> length s" using ls by simp
  qed
  have pts: "\<forall>j<nn. d' ! j =
              (if cd_extreme argsort F m j then PInf
               else fl_add (d ! j) (cd_contribution argsort F m j))"
  proof (intro allI impI)
    fix j assume j: "j < nn"
    obtain p where p: "p < nn" "s ! p = j" using choice_full_surj[OF ch j] by blast
    have pos: "cd_position argsort F m j = p"
      using position_nth[OF ds, of p] p ls by (simp add: cd_position_def s_def)
    have n1: "0 < nn" using n by (simp add: nn_def)
    have b: "s ! p < nn" "s ! 0 < nn" "s ! (nn - 1) < nn"
      using bs ls p(1) n1 by (simp_all add: list_all_length)
    have e0: "s ! p = s ! 0 \<longleftrightarrow> p = 0"
      using ds ls p(1) n1 by (simp add: nth_eq_iff_index_eq)
    have e1: "s ! p = s ! (nn - 1) \<longleftrightarrow> p = nn - 1"
      using ds ls p(1) n1 by (simp add: nth_eq_iff_index_eq)
    have "cd_extreme argsort F m j \<longleftrightarrow> s ! p = s ! 0 \<or> s ! p = s ! (nn - 1)"
      unfolding p(2) by (simp add: cd_extreme_def s_def nn_def)
    then have ext: "cd_extreme argsort F m j \<longleftrightarrow> p = 0 \<or> p = nn - 1"
      using e0 e1 by simp
    have con: "cd_contribution argsort F m j = cd_gap F m s lo hi p"
      by (simp add: cd_contribution_def cd_gap_def Let_def pos s_def lo_def hi_def nn_def)
    have "d' ! (s ! p) =
      (if 1 \<le> p \<and> p < nn - 1 then fl_add (d1 ! (s ! p)) (cd_gap F m s lo hi p) else d1 ! (s ! p))"
      using nth p(1) ls by simp
    moreover have "d1 ! (s ! p) = (if p = 0 \<or> p = nn - 1 then PInf else d ! (s ! p))"
    proof -
      have len1: "length d = nn" using len by (simp add: nn_def)
      have "d1 ! (s ! p) =
          (if s ! p = s ! (nn - 1) then PInf else if s ! p = s ! 0 then PInf else d ! (s ! p))"
        unfolding d1_def using b len1 by (simp add: nth_list_update)
      then show ?thesis unfolding e0 e1 by presburger
    qed
    ultimately have "d' ! (s ! p) =
              (if p = 0 \<or> p = nn - 1 then PInf
               else fl_add (d ! (s ! p)) (cd_gap F m s lo hi p))"
      using p(1) by (auto simp: fl_add_PInf)
    then show "d' ! j =
              (if cd_extreme argsort F m j then PInf
               else fl_add (d ! j) (cd_contribution argsort F m j))"
      unfolding ext con p(2) .
  qed
  show ?thesis using run ld pts by (auto simp: nn_def)
qed

lemma argsort_spec_order:
  "argsort_spec argsort \<Longrightarrow> argsort_ok (map Fin (column F m)) (cd_order argsort F m)"
  by (simp add: argsort_spec_def cd_order_def)

lemma crowding_fold:
  assumes spec: "argsort_spec argsort" and n: "1 \<le> nrows F"
  shows "length d = nrows F \<Longrightarrow>
    \<exists>d'. fold_err (cd_objective argsort F) d ms = Inr d' \<and> length d' = nrows F \<and>
      (\<forall>j<nrows F. d' ! j =
         foldl (\<lambda>x m. if cd_extreme argsort F m j then PInf
                       else fl_add x (cd_contribution argsort F m j)) (d ! j) ms)"
proof (induction ms arbitrary: d)
  case Nil
  then show ?case by simp
next
  case (Cons m ms)
  obtain d1 where d1: "cd_objective argsort F d m = Inr d1" "length d1 = nrows F"
    "\<forall>j<nrows F. d1 ! j =
              (if cd_extreme argsort F m j then PInf
               else fl_add (d ! j) (cd_contribution argsort F m j))"
    using cd_objective_point[OF argsort_spec_order[OF spec] n Cons.prems] by blast
  obtain d' where d': "fold_err (cd_objective argsort F) d1 ms = Inr d'" "length d' = nrows F"
    "\<forall>j<nrows F. d' ! j =
         foldl (\<lambda>x m. if cd_extreme argsort F m j then PInf
                       else fl_add x (cd_contribution argsort F m j)) (d1 ! j) ms"
    using Cons.IH[OF d1(2)] by blast
  show ?case using d1 d' by simp
qed

lemma foldl_point_PInf:
  "foldl (\<lambda>x m. if E m then PInf else fl_add x (C m)) PInf ms = PInf"
  by (induction ms) (simp_all add: fl_add_PInf)

lemma foldl_point_Fin:
  "foldl (\<lambda>x m. if E m then PInf else fl_add x (C m)) (Fin a) ms =
     (if list_ex E ms then PInf else Fin (a + sum_list (map C ms)))"
  by (induction ms arbitrary: a) (simp_all add: foldl_point_PInf fl_add_def)

lemma crowding_distance_points:
  assumes "argsort_spec argsort" "1 \<le> nrows F"
  shows "crowding_distance argsort F = Inr (map (cd_point argsort F) [0..<nrows F])"
proof -
  obtain d' where d': "fold_err (cd_objective argsort F) (replicate (nrows F) (Fin 0)) [0..<ncols F] = Inr d'"
    "length d' = nrows F"
    "\<forall>j<nrows F. d' ! j =
         foldl (\<lambda>x m. if cd_extreme argsort F m j then PInf
                       else fl_add x (cd_contribution argsort F m j))
           (replicate (nrows F) (Fin 0) ! j) [0..<ncols F]"
    using crowding_fold[OF assms, of "replicate (nrows F) (Fin 0)" "[0..<ncols F]"] by auto
  have "d' = map (cd_point argsort F) [0..<nrows F]"
  proof (rule nth_equalityI)
    show "length d' = length (map (cd_point argsort F) [0..<nrows F])" using d'(2) by simp
  next
    fix j assume "j < length d'"
    then have j: "j < nrows F" using d'(2) by simp
    then show "d' ! j = map (cd_point argsort F) [0..<nrows F] ! j"
      using d'(3) by (simp add: foldl_point_Fin cd_point_def)
  qed
  then show ?thesis using d'(1) by (simp add: crowding_distance_def Let_def)
qed

lemma Fin_le: "Fin a \<le> Fin b \<longleftrightarrow> a \<le> b"
  by (simp add: less_eq_fl_def)

lemma argsort_ok_3:
  assumes "argsort_ok [Fin x, Fin y, Fin z] p"
  shows "\<exists>a b c. p = [a, b, c] \<and> a < 3 \<and> b < 3 \<and> c < 3 \<and> a \<noteq> b \<and> a \<noteq> c \<and> b \<noteq> c \<and>
           [x, y, z] ! a \<le> [x, y, z] ! b \<and> [x, y, z] ! b \<le> [x, y, z] ! c"
proof -
  from assms have l: "length p = 3" by (simp add: argsort_ok_def choice_ok_def)
  then obtain a b c where p: "p = [a, b, c]"
    by (metis (no_types, opaque_lifting) length_0_conv length_Suc_conv numeral_3_eq_3)
  from assms p have b: "a < 3" "b < 3" "c < 3" "a \<noteq> b" "a \<noteq> c" "b \<noteq> c"
    by (simp_all add: argsort_ok_def choice_ok_def)
  have f: "\<And>i. i < 3 \<Longrightarrow> [Fin x, Fin y, Fin z] ! i = Fin ([x, y, z] ! i)"
    by (auto simp: less_Suc_eq numeral_3_eq_3)
  from assms p have "[Fin x, Fin y, Fin z] ! a \<le> [Fin x, Fin y, Fin z] ! b"
      "[Fin x, Fin y, Fin z] ! b \<le> [Fin x, Fin y, Fin z] ! c"
    by (simp_all add: argsort_ok_def)
  then have "[x, y, z] ! a \<le> [x, y, z] ! b" "[x, y, z] ! b \<le> [x, y, z] ! c"
    using b by (simp_all add: f Fin_le)
  then show ?thesis using p b by blast
qed

lemma argsort_ok_015:
  assumes "argsort_ok [Fin 0, Fin 1, Fin 5] p"
  shows "p = [0, 1, 2]"
proof -
  obtain a b c where p: "p = [a, b, c]" "a < 3" "b < 3" "c < 3" "a \<noteq> b" "a \<noteq> c" "b \<noteq> c"
    "[0, 1, 5::real] ! a \<le> [0, 1, 5] ! b" "[0, 1, 5::real] ! b \<le> [0, 1, 5] ! c"
    using argsort_ok_3[OF assms] by blast
  from p(2-9) show ?thesis unfolding p(1)
    by (auto simp: less_Suc_eq numeral_3_eq_3)
qed

lemma argsort_ok_510:
  assumes "argsort_ok [Fin 5, Fin 1, Fin 0] p"
  shows "p = [2, 1, 0]"
proof -
  obtain a b c where p: "p = [a, b, c]" "a < 3" "b < 3" "c < 3" "a \<noteq> b" "a \<noteq> c" "b \<noteq> c"
    "[5, 1, 0::real] ! a \<le> [5, 1, 0] ! b" "[5, 1, 0::real] ! b \<le> [5, 1, 0] ! c"
    using argsort_ok_3[OF assms] by blast
  from p(2-9) show ?thesis unfolding p(1)
    by (auto simp: less_Suc_eq numeral_3_eq_3)
qed

lemma front3_distance:
  assumes "argsort_spec argsort"
  shows "crowding_distance argsort front3 = Inr [PInf, Fin 2, PInf]"
proof -
  have a: "argsort [Fin 0, Fin 1, Fin 5] = [0, 1, 2]"
    using assms argsort_ok_015 by (simp add: argsort_spec_def)
  have b: "argsort [Fin 5, Fin 1, Fin 0] = [2, 1, 0]"
    using assms argsort_ok_510 by (simp add: argsort_spec_def)
  show ?thesis
    by (simp add: crowding_distance_def front3_def cd_objective_def nrows_def column_def Let_def
        a b upt_rec entry_def cd_interior_def fl_add_def)
qed


lemma argsort_stable_spec: "argsort_spec argsort_stable"
  by (simp add: argsort_spec_def argsort_ok_def choice_ok_def argsort_stable_def list_all_iff)

text \<open>
  Claim C8. For a front with at least one point and any sort that meets numpy's
  contract, crowding_distance returns one distance per point: infinite for the first
  and the last point of every objective's sort order, and for a point that is extreme in
  no objective the sum over the objectives of (next value - previous value) / (max - min),
  where an objective whose values are all equal adds nothing (no division by zero).
  On the front with objective values [0, 1, 5] and [5, 1, 0] the end points get an
  infinite distance and the middle point gets 2, finite and positive.
\<close>

theorem crowding_distance_extremes_and_interior:
  assumes "argsort_spec argsort" and "1 \<le> nrows F"
  shows "crowding_distance argsort F = Inr (map (cd_point argsort F) [0..<nrows F]) \<and>
    (\<forall>m<ncols F.
       cd_point argsort F (cd_order argsort F m ! 0) = PInf \<and>
       cd_point argsort F (cd_order argsort F m ! (nrows F - 1)) = PInf) \<and>
    (\<forall>j. \<not> list_ex (\<lambda>m. cd_extreme argsort F m j) [0..<ncols F] \<longrightarrow>
       cd_point argsort F j =
         Fin (sum_list (map (\<lambda>m. cd_contribution argsort F m j) [0..<ncols F]))) \<and>
    (\<forall>m j. entry F (cd_order argsort F m ! (nrows F - 1)) m = entry F (cd_order argsort F m ! 0) m
       \<longrightarrow> cd_contribution argsort F m j = 0) \<and>
    crowding_distance argsort front3 = Inr [PInf, Fin 2, PInf] \<and> (0::real) < 2"
proof (intro conjI allI impI)
  show "crowding_distance argsort F = Inr (map (cd_point argsort F) [0..<nrows F])"
    using assms by (rule crowding_distance_points)
next
  fix m assume "m < ncols F"
  then have "list_ex (\<lambda>m. cd_extreme argsort F m (cd_order argsort F m' ! k)) [0..<ncols F]"
    if "cd_extreme argsort F m (cd_order argsort F m' ! k)" for m' k
    using that by (auto simp: list_ex_iff)
  then show "cd_point argsort F (cd_order argsort F m ! 0) = PInf"
    and "cd_point argsort F (cd_order argsort F m ! (nrows F - 1)) = PInf"
    by (simp_all add: cd_point_def cd_extreme_def)
next
  fix j assume "\<not> list_ex (\<lambda>m. cd_extreme argsort F m j) [0..<ncols F]"
  then show "cd_point argsort F j =
      Fin (sum_list (map (\<lambda>m. cd_contribution argsort F m j) [0..<ncols F]))"
    by (simp add: cd_point_def)
next
  fix m j
  assume "entry F (cd_order argsort F m ! (nrows F - 1)) m = entry F (cd_order argsort F m ! 0) m"
  then show "cd_contribution argsort F m j = 0"
    by (simp add: cd_contribution_def Let_def)
next
  show "crowding_distance argsort front3 = Inr [PInf, Fin 2, PInf]"
    using assms(1) by (rule front3_distance)
qed simp

theorem crowding_distance_extremes_and_interior_witness:
  "argsort_spec argsort_stable \<and> 1 \<le> nrows front4 \<and>
   crowding_distance argsort_stable front4 = Inr (map (cd_point argsort_stable front4) [0..<4]) \<and>
   crowding_distance argsort_stable front4 = Inr [PInf, Fin (43 / 30), Fin (13 / 10), PInf] \<and>
   crowding_distance argsort_stable front3 = Inr [PInf, Fin 2, PInf]"
proof -
  have n: "nrows front4 = 4" by (simp add: front4_def nrows_def)
  have v: "crowding_distance argsort_stable front4 = Inr [PInf, Fin (43 / 30), Fin (13 / 10), PInf]"
    by (simp add: crowding_distance_def front4_def cd_objective_def nrows_def column_def Let_def
        argsort_stable_def less_eq_fl_def upt_rec entry_def cd_interior_def fl_add_def)
  show ?thesis
    using crowding_distance_extremes_and_interior[OF argsort_stable_spec, of front4]
      argsort_stable_spec n v
    by simp
qed


section \<open>Properties of compute_ms\<close>

lemma compute_ms_single:
  assumes "2 < x"
  shows "compute_ms (NDArray 1 [[x]]) ms_true_pf = Inr (Value (x - 1))"
proof -
  have "sqrt ((1 - x)\<^sup>2) = x - 1" using assms by simp
  then show ?thesis using assms
    by (simp add: compute_ms_def ms_true_pf_def and_then_def axis_min_def axis_max_def nrows_def
        column_def amin_def amax_def ms_component_def Let_def)
qed

text \<open>
  Claim C9. compute_ms is not bounded by 1. Take the true front with the single
  objective values 0 and 1 and an achieved set with the single value \<open>x > 2\<close>: the two
  ranges are disjoint, the overlap term min(true_max, F_max) - max(true_min, F_min) is
  negative, its square is positive, and compute_ms returns \<open>x - 1 > 1\<close>.
\<close>

theorem compute_ms_exceeds_one:
  "2 < x \<longrightarrow>
     amax (column ms_true_pf 0) < amin (column (NDArray 1 [[x]]) 0) \<and>
     min (amax (column ms_true_pf 0)) (amax (column (NDArray 1 [[x]]) 0))
       - max (amin (column ms_true_pf 0)) (amin (column (NDArray 1 [[x]]) 0)) < 0 \<and>
     compute_ms (NDArray 1 [[x]]) ms_true_pf = Inr (Value (x - 1)) \<and>
     1 < x - 1"
proof (intro impI conjI)
  assume x: "2 < x"
  then show "compute_ms (NDArray 1 [[x]]) ms_true_pf = Inr (Value (x - 1))"
    by (rule compute_ms_single)
  from x show "amax (column ms_true_pf 0) < amin (column (NDArray 1 [[x]]) 0)"
    by (simp add: ms_true_pf_def column_def amin_def amax_def)
  from x show "min (amax (column ms_true_pf 0)) (amax (column (NDArray 1 [[x]]) 0))
       - max (amin (column ms_true_pf 0)) (amin (column (NDArray 1 [[x]]) 0)) < 0"
    by (simp add: ms_true_pf_def column_def amin_def amax_def)
  from x show "1 < x - 1" by simp
qed

theorem compute_ms_exceeds_one_witness:
  "(2::real) < 3 \<and>
   amax (column ms_true_pf 0) < amin (column (NDArray 1 [[3]]) 0) \<and>
   compute_ms (NDArray 1 [[3]]) ms_true_pf = Inr (Value 2) \<and>
   compute_ms (NDArray 2 [[3, 0], [4, 1]]) (NDArray 2 [[0, 0], [1, 1]]) = Inr (Value (sqrt (5 / 2))) \<and>
   1 < sqrt (5 / 2)"
proof -
  have a: "compute_ms (NDArray 2 [[3, 0], [4, 1]]) (NDArray 2 [[0, 0], [1, 1]])
      = Inr (Value (sqrt (5 / 2)))"
    by (simp add: compute_ms_def and_then_def axis_min_def axis_max_def nrows_def
        column_def amin_def amax_def ms_component_def Let_def upt_rec)
  have b: "1 < sqrt (5 / 2)" by (simp add: real_less_rsqrt)
  show ?thesis using compute_ms_exceeds_one[of 3] a b by simp
qed


section \<open>Properties of select_subset\<close>

lemma evaluate_fold:
  assumes "list_all (\<lambda>x. length (evaluate p x) = n_obj p) xs"
  shows "fold_err (\<lambda>acc ind. and_then (assign_row (n_obj p) (evaluate p ind)) (\<lambda>r. Inr (acc @ [r])))
           acc xs = Inr (acc @ map (evaluate p) xs)"
  using assms by (induction xs arbitrary: acc) (simp_all add: and_then_def assign_row_def)

lemma evaluate_rows_ok:
  assumes "list_all (\<lambda>x. length (evaluate p x) = n_obj p) xs"
  shows "evaluate_rows p xs = Inr (NDArray (n_obj p) (map (evaluate p) xs))"
  using evaluate_fold[OF assms, of "[]"] by (simp add: evaluate_rows_def and_then_def)

lemma np_array_rectangular:
  "rectangular xs \<Longrightarrow> xs \<noteq> [] \<Longrightarrow> np_array xs = Inr (NDArray (length (hd xs)) xs)"
  by (cases xs) (simp_all add: np_array_def rectangular_def)

lemma argsort_take_least:
  assumes ok: "argsort_ok (map Fin v) s" and i: "i \<in> set (take k s)"
    and j: "j < length v" "j \<notin> set (take k s)"
  shows "v ! i \<le> v ! j"
proof -
  have ch: "choice_ok (length v) (length v) s" and so: "sorted (map (\<lambda>i. map Fin v ! i) s)"
    using ok by (simp_all add: argsort_ok_def)
  obtain b where b: "b < length v" "s ! b = j" using choice_full_surj[OF ch j(1)] by blast
  have ls: "length s = length v" using ch by (simp add: choice_ok_def)
  have bk: "k \<le> b"
  proof (rule ccontr)
    assume "\<not> k \<le> b"
    then have "s ! b \<in> set (take k s)" using b(1) ls by (auto simp: in_set_conv_nth)
    then show False using j(2) b(2) by simp
  qed
  obtain a where a: "a < k" "a < length s" "s ! a = i"
    using i by (auto simp: in_set_conv_nth)
  have bound: "\<forall>x\<in>set s. x < length v" using ch by (simp add: choice_ok_def list_all_iff)
  have "map (\<lambda>i. map Fin v ! i) s ! a \<le> map (\<lambda>i. map Fin v ! i) s ! b"
    using so a bk b(1) ls by (intro sorted_nth_mono) simp_all
  then have "map Fin v ! (s ! a) \<le> map Fin v ! (s ! b)" using a b ls by simp
  moreover have "s ! a < length v" "s ! b < length v"
    using bound a(2) b(1) ls by (simp_all add: nth_mem)
  ultimately have "v ! (s ! a) \<le> v ! (s ! b)" by (simp add: Fin_le)
  then show ?thesis unfolding a(3) b(2) .
qed

lemma select_subset_large:
  assumes spec: "argsort_spec argsort" and rect: "rectangular saved"
    and ev: "list_all (\<lambda>x. length (evaluate p x) = n_obj p) saved"
    and big: "max_elements < length saved"
  shows "select_subset argsort saved p max_elements =
           Inr (NDArray (length (hd saved))
                  (map (\<lambda>i. saved ! i)
                     (take max_elements (argsort (map Fin (objective_sums p saved))))))"
    and "choice_ok (length saved) max_elements
           (take max_elements (argsort (map Fin (objective_sums p saved))))"
proof -
  let ?s = "argsort (map Fin (objective_sums p saved))"
  have ne: "saved \<noteq> []" using big by auto
  have ok: "argsort_ok (map Fin (objective_sums p saved)) ?s"
    using spec by (simp add: argsort_spec_def)
  then have ch: "choice_ok (length saved) (length saved) ?s"
    by (simp add: argsort_ok_def objective_sums_def)
  show c: "choice_ok (length saved) max_elements (take max_elements ?s)"
    using ch big by (auto simp: choice_ok_def list_all_iff dest: in_set_takeD)
  have sums: "map ((\<lambda>r. Fin (sum_list r)) \<circ> evaluate p) saved = map Fin (objective_sums p saved)"
    by (simp add: objective_sums_def comp_def)
  show "select_subset argsort saved p max_elements =
           Inr (NDArray (length (hd saved)) (map (\<lambda>i. saved ! i) (take max_elements ?s)))"
    using big ne c
    by (simp add: select_subset_def np_array_rectangular[OF rect ne] and_then_def nrows_def
        evaluate_rows_ok[OF ev] Let_def sums index_rows_def take_rows_def choice_ok_def)
qed

lemma sorted_map_Fin: "sorted (map Fin xs) \<longleftrightarrow> sorted xs"
  by (simp add: sorted_map Fin_le)

lemma argsort_take_sorted:
  assumes ok: "argsort_ok (map Fin v) s"
  shows "sorted (map (\<lambda>i. v ! i) (take k s))"
proof -
  have ch: "choice_ok (length v) (length v) s" and so: "sorted (map (\<lambda>i. map Fin v ! i) s)"
    using ok by (simp_all add: argsort_ok_def)
  have eq: "map (\<lambda>i. map Fin v ! i) s = map Fin (map (\<lambda>i. v ! i) s)"
    using ch by (simp add: choice_ok_def list_all_iff)
  have "sorted (map Fin (map (\<lambda>i. v ! i) s))" using so unfolding eq .
  then have "sorted (map (\<lambda>i. v ! i) s)" by (simp only: sorted_map_Fin)
  then have "sorted (take k (map (\<lambda>i. v ! i) s))" by (rule sorted_wrt_take)
  then show ?thesis by (simp add: take_map)
qed

text \<open>
  Claim C6. select_subset returns the empty array for the empty archive; it returns the
  archive unchanged (the same rows, so the same multiset) when the archive has at most
  \<open>max_elements\<close> rows; otherwise it evaluates every archived vector under the given
  problem and returns the rows at the first \<open>max_elements\<close> indices of the archive
  sorted by the sum of the objective values: exactly \<open>max_elements\<close> members of the
  archive, in ascending order of their sums, none of them with a larger sum than a
  member that is left out.
\<close>

theorem select_subset_cases:
  assumes "argsort_spec argsort" and "rectangular saved"
    and "list_all (\<lambda>x. length (evaluate p x) = n_obj p) saved"
  shows "select_subset argsort [] p max_elements = Inr (NDArray 0 []) \<and>
    (length saved \<le> max_elements \<longrightarrow>
       (\<exists>B. select_subset argsort saved p max_elements = Inr B \<and> rows B = saved \<and>
            mset (rows B) = mset saved)) \<and>
    (max_elements < length saved \<longrightarrow>
       (\<exists>B idx. select_subset argsort saved p max_elements = Inr B \<and>
          idx = take max_elements (argsort (map Fin (objective_sums p saved))) \<and>
          rows B = map (\<lambda>i. saved ! i) idx \<and> nrows B = max_elements \<and>
          choice_ok (length saved) max_elements idx \<and>
          mset (rows B) \<subseteq># mset saved \<and>
          sorted (map (\<lambda>i. objective_sums p saved ! i) idx) \<and>
          (\<forall>i\<in>set idx. \<forall>j<length saved. j \<notin> set idx \<longrightarrow>
             objective_sums p saved ! i \<le> objective_sums p saved ! j)))"
proof (intro conjI impI)
  show "select_subset argsort [] p max_elements = Inr (NDArray 0 [])"
    by (simp add: select_subset_def np_array_def and_then_def nrows_def)
next
  assume le: "length saved \<le> max_elements"
  show "\<exists>B. select_subset argsort saved p max_elements = Inr B \<and> rows B = saved \<and>
            mset (rows B) = mset saved"
  proof (cases "saved = []")
    case True
    then show ?thesis by (simp add: select_subset_def np_array_def and_then_def nrows_def)
  next
    case False
    then show ?thesis using le
      by (simp add: select_subset_def np_array_rectangular[OF assms(2) False] and_then_def
          nrows_def)
  qed
next
  assume big: "max_elements < length saved"
  let ?idx = "take max_elements (argsort (map Fin (objective_sums p saved)))"
  let ?B = "NDArray (length (hd saved)) (map (\<lambda>i. saved ! i) ?idx)"
  have ok: "argsort_ok (map Fin (objective_sums p saved)) (argsort (map Fin (objective_sums p saved)))"
    using assms(1) by (simp add: argsort_spec_def)
  have r: "select_subset argsort saved p max_elements = Inr ?B"
    and c: "choice_ok (length saved) max_elements ?idx"
    using select_subset_large[OF assms big] by simp_all
  have n: "nrows ?B = max_elements" using c by (simp add: nrows_def choice_ok_def)
  have "mset (map (\<lambda>i. saved ! i) ?idx) \<subseteq># mset saved"
    using c unfolding choice_ok_def by (intro mset_map_nth_subset) simp_all
  then have m: "mset (rows ?B) \<subseteq># mset saved" by simp
  have s: "sorted (map (\<lambda>i. objective_sums p saved ! i) ?idx)"
    using ok by (rule argsort_take_sorted)
  have l: "\<forall>i\<in>set ?idx. \<forall>j<length saved. j \<notin> set ?idx \<longrightarrow>
             objective_sums p saved ! i \<le> objective_sums p saved ! j"
    using argsort_take_least[OF ok] by (simp add: objective_sums_def)
  show "\<exists>B idx. select_subset argsort saved p max_elements = Inr B \<and>
          idx = ?idx \<and>
          rows B = map (\<lambda>i. saved ! i) idx \<and> nrows B = max_elements \<and>
          choice_ok (length saved) max_elements idx \<and>
          mset (rows B) \<subseteq># mset saved \<and>
          sorted (map (\<lambda>i. objective_sums p saved ! i) idx) \<and>
          (\<forall>i\<in>set idx. \<forall>j<length saved. j \<notin> set idx \<longrightarrow>
             objective_sums p saved ! i \<le> objective_sums p saved ! j)"
    using r c n m s l by (intro exI[of _ ?B] exI[of _ ?idx]) simp
qed

theorem select_subset_cases_witness:
  "argsort_spec argsort_stable \<and> rectangular [[3], [1], [2]] \<and>
   list_all (\<lambda>x. length (evaluate example_problem x) = n_obj example_problem) [[3], [1], [2]] \<and>
   select_subset argsort_stable [[3], [1], [2]] example_problem 5 = Inr (NDArray 1 [[3], [1], [2]]) \<and>
   (2::nat) < length [[3], [1], [2::real]] \<and>
   objective_sums example_problem [[3], [1], [2]] = [4, 2, 3] \<and>
   select_subset argsort_stable [[3], [1], [2]] example_problem 2 = Inr (NDArray 1 [[1], [2]]) \<and>
   (\<exists>B. select_subset argsort_stable [[3], [1], [2]] example_problem 2 = Inr B \<and>
        mset (rows B) \<subseteq># mset [[3], [1], [2]])"
proof -
  have h: "rectangular [[3], [1], [2]]"
    "list_all (\<lambda>x. length (evaluate example_problem x) = n_obj example_problem) [[3], [1], [2]]"
    by (simp_all add: rectangular_def example_problem_def)
  have v5: "select_subset argsort_stable [[3], [1], [2]] example_problem 5 = Inr (NDArray 1 [[3], [1], [2]])"
    by (simp add: select_subset_def np_array_def and_then_def nrows_def)
  have os: "objective_sums example_problem [[3], [1], [2]] = [4, 2, 3]"
    by (simp add: objective_sums_def example_problem_def)
  have v2: "select_subset argsort_stable [[3], [1], [2]] example_problem 2 = Inr (NDArray 1 [[1], [2]])"
    by (simp add: select_subset_def np_array_def and_then_def nrows_def evaluate_rows_def
        assign_row_def example_problem_def argsort_stable_def less_eq_fl_def upt_rec
        index_rows_def take_rows_def)
  note t = select_subset_cases[OF argsort_stable_spec h, of 2]
  from t have "\<exists>B. select_subset argsort_stable [[3], [1], [2]] example_problem 2 = Inr B \<and>
        mset (rows B) \<subseteq># mset [[3], [1], [2]]" by auto
  then show ?thesis using argsort_stable_spec h v5 os v2 by simp
qed



section \<open>Properties of fit_transform\<close>

lemma matmul_ok:
  assumes "ncols A = nrows B"
  shows "\<exists>C. matmul A B = Inr C \<and> ncols C = ncols B \<and> nrows C = nrows A \<and> wf_array C"
  using assms by (simp add: matmul_def nrows_def wf_array_def list_all_iff)

lemma vstack2_ok:
  assumes "ncols Xs = ncols Xt"
  shows "vstack [Xs, Xt] = Inr (NDArray (ncols Xs) (rows Xs @ rows Xt))"
  using assms by (simp add: vstack_def)

lemma rbf_kernel_ok:
  assumes "1 \<le> nrows X" "1 \<le> ncols X"
  shows "\<exists>K. rbf_kernel X X g = Inr K \<and> ncols K = nrows X \<and> nrows K = nrows X \<and> wf_array K"
  using assms by (auto simp: rbf_kernel_def nrows_def wf_array_def list_all_iff)

lemma tca_L_ok:
  assumes "1 \<le> ns" "1 \<le> nt"
  shows "\<exists>L. tca_L ns nt = Inr L \<and> ncols L = ns + nt \<and> nrows L = ns + nt"
  using assms by (simp add: tca_L_def nrows_def)

lemma mat_add_ridge_ok:
  assumes "ncols K = n" "nrows K = n"
  shows "\<exists>M. mat_add K (scale c (eye n)) = Inr M \<and> ncols M = n \<and> nrows M = n"
  using assms by (simp add: mat_add_def scale_def eye_def nrows_def)

lemma ridge_matrix_ok:
  assumes "1 \<le> nrows Xs" "ncols Xs = ncols Xt" "1 \<le> ncols Xs"
  shows "\<exists>K M. rbf_kernel (NDArray (ncols Xs) (rows Xs @ rows Xt))
                  (NDArray (ncols Xs) (rows Xs @ rows Xt)) (gamma self) = Inr K \<and>
           ncols K = nrows Xs + nrows Xt \<and> nrows K = nrows Xs + nrows Xt \<and>
           mat_add K (scale (lamb self) (eye (nrows Xs + nrows Xt))) = Inr M \<and>
           ridge_matrix self Xs Xt = Inr M \<and>
           ncols M = nrows Xs + nrows Xt \<and> nrows M = nrows Xs + nrows Xt"
proof -
  let ?X = "NDArray (ncols Xs) (rows Xs @ rows Xt)"
  have nX: "nrows ?X = nrows Xs + nrows Xt" by (simp add: nrows_def)
  obtain K where K: "rbf_kernel ?X ?X (gamma self) = Inr K" "ncols K = nrows ?X" "nrows K = nrows ?X"
    using rbf_kernel_ok[of ?X "gamma self"] assms nX by auto
  obtain M where M: "mat_add K (scale (lamb self) (eye (nrows Xs + nrows Xt))) = Inr M"
    "ncols M = nrows Xs + nrows Xt" "nrows M = nrows Xs + nrows Xt"
    using mat_add_ridge_ok[of K "nrows Xs + nrows Xt"] K nX by auto
  have "ridge_matrix self Xs Xt = Inr M"
    using K M by (simp add: ridge_matrix_def vstack2_ok[OF assms(2)] and_then_def)
  then show ?thesis using K M nX by auto
qed

lemma and_then_eq_Inr: "and_then m f = Inr y \<longleftrightarrow> (\<exists>x. m = Inr x \<and> f x = Inr y)"
  by (cases m) (simp_all add: and_then_def)

lemma and_then_Inl: "and_then (Inl e) f = Inl e"
  by (simp add: and_then_def)

lemma and_then_Inr: "and_then (Inr x) f = f x"
  by (simp add: and_then_def)

lemma fit_transform_inv_fails:
  assumes rbf: "kernel_type self = ''rbf''"
    and sh: "1 \<le> nrows Xs" "1 \<le> nrows Xt"
    and M: "ridge_matrix self Xs Xt = Inr M" and fail: "linalg_inv M = None"
  shows "fit_transform argsort linalg_inv linalg_eigh self Xs Xt = Inl LinAlgError"
proof -
  obtain X K where X: "vstack [Xs, Xt] = Inr X" and K: "rbf_kernel X X (gamma self) = Inr K"
    and A: "mat_add K (scale (lamb self) (eye (nrows Xs + nrows Xt))) = Inr M"
    using M unfolding ridge_matrix_def and_then_eq_Inr by blast
  obtain L where L: "tca_L (nrows Xs) (nrows Xt) = Inr L"
    using tca_L_ok[OF sh] by blast
  have k: "kernel self X None = Inr (Some K)"
    using rbf K by (simp add: kernel_def and_then_def)
  show ?thesis
    unfolding fit_transform_def X and_then_Inr Let_def k L option.case A fail ..
qed

subsection \<open>The ridge matrix is regular\<close>

text \<open>
  The Gram matrix of the Gaussian kernel is positive semidefinite for \<open>0 \<le> gamma\<close>:
  every factor \<open>exp (- gamma * (s - t)\<^sup>2)\<close> is
  \<open>exp (- gamma * s\<^sup>2) * exp (- gamma * t\<^sup>2) * exp (2 * gamma * s * t)\<close>, and the last
  factor is the limit of the partial sums of its power series, which are kernels with
  finitely many features. So no vector other than zero is mapped to zero by
  \<open>K + lamb * I\<close> when \<open>0 < lamb\<close>.
\<close>

lemma feature_kernel_zero: "feature_kernel (\<lambda>x y. 0)"
proof -
  have "feature_kernel (\<lambda>x y. (\<lambda>_. 0) x * (\<lambda>_. 0::real) y)" by (rule rank_one)
  then show ?thesis by simp
qed

lemma feature_kernel_one: "feature_kernel (\<lambda>x y. 1)"
proof -
  have "feature_kernel (\<lambda>x y. (\<lambda>_. 1) x * (\<lambda>_. 1::real) y)" by (rule rank_one)
  then show ?thesis by simp
qed

lemma feature_kernel_rank_one_times:
  assumes "feature_kernel k"
  shows "feature_kernel (\<lambda>x y. f x * f y * k x y)"
  using assms
proof (induction rule: feature_kernel.induct)
  case (rank_one g)
  have "(\<lambda>x y. f x * f y * (g x * g y)) = (\<lambda>x y. (f x * g x) * (f y * g y))"
    by (intro ext) simp
  moreover have "feature_kernel (\<lambda>x y. (\<lambda>z. f z * g z) x * (\<lambda>z. f z * g z) y)"
    by (rule feature_kernel.rank_one)
  ultimately show ?case by simp
next
  case (plus k1 k2)
  have "(\<lambda>x y. f x * f y * (k1 x y + k2 x y)) = (\<lambda>x y. f x * f y * k1 x y + f x * f y * k2 x y)"
    by (intro ext) (simp add: algebra_simps)
  then show ?case using feature_kernel.plus[OF plus.IH] by simp
qed

lemma feature_kernel_times:
  assumes "feature_kernel k1" "feature_kernel k2"
  shows "feature_kernel (\<lambda>x y. k1 x y * k2 x y)"
  using assms(1)
proof (induction rule: feature_kernel.induct)
  case (rank_one f)
  show ?case using assms(2) by (rule feature_kernel_rank_one_times)
next
  case (plus a b)
  have "(\<lambda>x y. (a x y + b x y) * k2 x y) = (\<lambda>x y. a x y * k2 x y + b x y * k2 x y)"
    by (intro ext) (simp add: algebra_simps)
  then show ?case using feature_kernel.plus[OF plus.IH] by simp
qed

lemma feature_kernel_sum:
  "\<forall>i<(n::nat). feature_kernel (K i) \<Longrightarrow> feature_kernel (\<lambda>x y. \<Sum>i<n. K i x y)"
proof (induction n)
  case 0
  then show ?case by (simp add: feature_kernel_zero)
next
  case (Suc n)
  have "feature_kernel (\<lambda>x y. (\<Sum>i<n. K i x y) + K n x y)"
    using Suc by (intro feature_kernel.plus) simp_all
  then show ?case by simp
qed

lemma feature_kernel_prod:
  "\<forall>i<(n::nat). feature_kernel (K i) \<Longrightarrow> feature_kernel (\<lambda>x y. \<Prod>i<n. K i x y)"
proof (induction n)
  case 0
  then show ?case by (simp add: feature_kernel_one)
next
  case (Suc n)
  have "feature_kernel (\<lambda>x y. (\<Prod>i<n. K i x y) * K n x y)"
    using Suc by (intro feature_kernel_times) simp_all
  then show ?case by simp
qed

lemma feature_kernel_psd:
  assumes "feature_kernel k"
  shows "0 \<le> (\<Sum>i<(n::nat). \<Sum>j<n. c i * c j * k (x i) (x j))"
  using assms
proof (induction rule: feature_kernel.induct)
  case (rank_one f)
  have "(\<Sum>i<n. \<Sum>j<n. c i * c j * (f (x i) * f (x j))) = (\<Sum>i<n. c i * f (x i)) * (\<Sum>j<n. c j * f (x j))"
    by (simp add: sum_product algebra_simps)
  then show ?case by simp
next
  case (plus k1 k2)
  have "(\<Sum>i<n. \<Sum>j<n. c i * c j * (k1 (x i) (x j) + k2 (x i) (x j))) =
      (\<Sum>i<n. \<Sum>j<n. c i * c j * k1 (x i) (x j)) + (\<Sum>i<n. \<Sum>j<n. c i * c j * k2 (x i) (x j))"
    by (simp add: algebra_simps sum.distrib)
  then show ?case using plus.IH by simp
qed

lemma sq_dist_sum:
  assumes "length x = length y"
  shows "sq_dist x y = (\<Sum>m<length x. (x ! m - y ! m)\<^sup>2)"
proof -
  have "sq_dist x y = (\<Sum>m = 0..<length (zip x y). (map (\<lambda>(a, b). (a - b)\<^sup>2) (zip x y)) ! m)"
    unfolding sq_dist_def by (subst sum_list_sum_nth) simp
  also have "\<dots> = (\<Sum>m = 0..<length x. (x ! m - y ! m)\<^sup>2)"
    using assms by (intro sum.cong) simp_all
  finally show ?thesis by (simp add: atLeast0LessThan)
qed

lemma exp_partial_sums:
  fixes g s t :: real
  shows "(\<lambda>N. \<Sum>k<N. ((2 * g) ^ k / fact k) * s ^ k * t ^ k) \<longlonglongrightarrow> exp (2 * g * s * t)"
proof -
  have "(\<lambda>k. (2 * g * s * t) ^ k /\<^sub>R fact k) sums exp (2 * g * s * t)"
    by (rule exp_converges)
  moreover have "(\<lambda>k. (2 * g * s * t) ^ k /\<^sub>R fact k) = (\<lambda>k. ((2 * g) ^ k / fact k) * s ^ k * t ^ k)"
    by (intro ext) (simp add: power_mult_distrib divide_inverse algebra_simps)
  ultimately have "(\<lambda>k. ((2 * g) ^ k / fact k) * s ^ k * t ^ k) sums exp (2 * g * s * t)"
    by (simp only:)
  then show ?thesis unfolding sums_def .
qed

lemma gaussian_factor:
  fixes g s t :: real
  shows "exp (- g * s\<^sup>2) * exp (- g * t\<^sup>2) * exp (2 * g * s * t) = exp (- g * (s - t)\<^sup>2)"
proof -
  have "- g * s\<^sup>2 + - g * t\<^sup>2 + 2 * g * s * t = - g * (s - t)\<^sup>2"
    by (simp add: power2_eq_square algebra_simps)
  then show ?thesis by (metis exp_add)
qed

lemma gaussian_psd:
  fixes x :: "nat \<Rightarrow> real list"
  assumes g: "0 \<le> g" and len: "\<forall>i<n. length (x i) = d"
  shows "0 \<le> (\<Sum>i<n. \<Sum>j<n. c i * c j * exp (- g * sq_dist (x i) (x j)))"
proof -
  define a where "a k = (2 * g) ^ k / fact k" for k
  have a0: "0 \<le> a k" for k using g by (simp add: a_def)
  define T where "T N u v = (\<Prod>m<d. exp (- g * (u ! m)\<^sup>2) * exp (- g * (v ! m)\<^sup>2) *
      (\<Sum>k<N. a k * (u ! m) ^ k * (v ! m) ^ k))" for N and u v :: "real list"
  have fk: "feature_kernel (T N)" for N
  proof -
    have tm: "feature_kernel (\<lambda>u v. a k * (u ! m) ^ k * (v ! m) ^ k)" for k m
    proof -
      have "feature_kernel (\<lambda>(u::real list) v. (\<lambda>w. sqrt (a k) * (w ! m) ^ k) u * (\<lambda>w. sqrt (a k) * (w ! m) ^ k) v)"
        by (rule feature_kernel.rank_one)
      moreover have "(\<lambda>(u::real list) v. (sqrt (a k) * (u ! m) ^ k) * (sqrt (a k) * (v ! m) ^ k))
          = (\<lambda>u v. a k * (u ! m) ^ k * (v ! m) ^ k)"
      proof (intro ext)
        fix u v :: "real list"
        have "sqrt (a k) * sqrt (a k) = a k" using a0 by simp
        then show "(sqrt (a k) * (u ! m) ^ k) * (sqrt (a k) * (v ! m) ^ k) = a k * (u ! m) ^ k * (v ! m) ^ k"
          by (metis (no_types, opaque_lifting) mult.assoc mult.left_commute)
      qed
      ultimately show ?thesis by simp
    qed
    have fac: "feature_kernel (\<lambda>u v. exp (- g * (u ! m)\<^sup>2) * exp (- g * (v ! m)\<^sup>2) *
        (\<Sum>k<N. a k * (u ! m) ^ k * (v ! m) ^ k))" for m
      by (intro feature_kernel_rank_one_times[where f = "\<lambda>u. exp (- g * (u ! m)\<^sup>2)"]
          feature_kernel_sum allI impI tm)
    have "feature_kernel (\<lambda>u v. \<Prod>m<d. exp (- g * (u ! m)\<^sup>2) * exp (- g * (v ! m)\<^sup>2) *
        (\<Sum>k<N. a k * (u ! m) ^ k * (v ! m) ^ k))"
      by (intro feature_kernel_prod allI impI fac)
    then show ?thesis unfolding T_def[abs_def] .
  qed
  have lim: "(\<lambda>N. T N (x i) (x j)) \<longlonglongrightarrow> exp (- g * sq_dist (x i) (x j))"
    if "i < n" "j < n" for i j
  proof -
    have li: "length (x i) = d" "length (x j) = d" using len that by simp_all
    have "(\<lambda>N. \<Prod>m<d. exp (- g * (x i ! m)\<^sup>2) * exp (- g * (x j ! m)\<^sup>2) *
        (\<Sum>k<N. a k * (x i ! m) ^ k * (x j ! m) ^ k))
      \<longlonglongrightarrow> (\<Prod>m<d. exp (- g * (x i ! m)\<^sup>2) * exp (- g * (x j ! m)\<^sup>2) *
            exp (2 * g * (x i ! m) * (x j ! m)))"
      unfolding a_def by (intro tendsto_prod tendsto_mult tendsto_const exp_partial_sums)
    moreover have "(\<Prod>m<d. exp (- g * (x i ! m)\<^sup>2) * exp (- g * (x j ! m)\<^sup>2) *
            exp (2 * g * (x i ! m) * (x j ! m))) = exp (- g * sq_dist (x i) (x j))"
    proof -
      have "(\<Prod>m<d. exp (- g * (x i ! m)\<^sup>2) * exp (- g * (x j ! m)\<^sup>2) *
            exp (2 * g * (x i ! m) * (x j ! m))) = (\<Prod>m<d. exp (- g * (x i ! m - x j ! m)\<^sup>2))"
        by (intro prod.cong refl) (rule gaussian_factor)
      also have "\<dots> = exp (\<Sum>m<d. - g * (x i ! m - x j ! m)\<^sup>2)"
        by (simp add: exp_sum)
      also have "\<dots> = exp (- g * sq_dist (x i) (x j))"
        using li by (simp add: sq_dist_sum sum_distrib_left)
      finally show ?thesis .
    qed
    ultimately show ?thesis unfolding T_def by simp
  qed
  have "(\<lambda>N. \<Sum>i<n. \<Sum>j<n. c i * c j * T N (x i) (x j))
      \<longlonglongrightarrow> (\<Sum>i<n. \<Sum>j<n. c i * c j * exp (- g * sq_dist (x i) (x j)))"
    by (intro tendsto_sum tendsto_mult tendsto_const lim) simp_all
  moreover have "\<exists>M. \<forall>N\<ge>M. 0 \<le> (\<Sum>i<n. \<Sum>j<n. c i * c j * T N (x i) (x j))"
    using feature_kernel_psd[OF fk] by blast
  ultimately show ?thesis by (rule LIMSEQ_le_const)
qed

lemma ridge_entry:
  assumes K: "rbf_kernel X X g = Inr K"
    and M: "mat_add K (scale lam (eye (nrows X))) = Inr M"
    and i: "i < nrows X" and j: "j < nrows X"
  shows "entry M i j = exp (- g * sq_dist (rows X ! i) (rows X ! j)) + (if i = j then lam else 0)"
proof -
  have rK: "rows K = map (\<lambda>x. map (\<lambda>y. exp (- g * sq_dist x y)) (rows X)) (rows X)"
    using K by (auto simp: rbf_kernel_def split: if_splits)
  have rM: "rows M = map (\<lambda>(r, q). map (\<lambda>(x, y). x + y) (zip r q))
      (zip (rows K) (rows (scale lam (eye (nrows X)))))"
    using M by (auto simp: mat_add_def split: if_splits)
  show ?thesis
    using i j by (simp add: entry_def rM rK scale_def eye_def nrows_def)
qed

lemma ridge_regular:
  assumes g: "0 \<le> g" and lam: "0 < lam" and wf: "wf_array X"
    and K: "rbf_kernel X X g = Inr K"
    and M: "mat_add K (scale lam (eye (nrows X))) = Inr M"
    and sh: "ncols M = nrows X" "nrows M = nrows X"
  shows "\<not> singular M"
proof
  assume "singular M"
  then obtain v where v: "length v = nrows X" "\<exists>j<nrows X. v ! j \<noteq> 0"
    "\<forall>i<nrows X. (\<Sum>j<nrows X. entry M i j * v ! j) = 0"
    unfolding singular_def sh by blast
  let ?n = "nrows X"
  let ?G = "\<lambda>i j. exp (- g * sq_dist (rows X ! i) (rows X ! j))"
  have len: "\<forall>i<?n. length (rows X ! i) = ncols X"
    using wf by (simp add: wf_array_def list_all_length nrows_def)
  have psd: "0 \<le> (\<Sum>i<?n. \<Sum>j<?n. v ! i * v ! j * ?G i j)"
    using gaussian_psd[OF g len, of "\<lambda>i. v ! i"] by simp
  have "(\<Sum>i<?n. v ! i * (\<Sum>j<?n. entry M i j * v ! j)) = 0"
    using v(3) by simp
  moreover have "(\<Sum>i<?n. v ! i * (\<Sum>j<?n. entry M i j * v ! j))
      = (\<Sum>i<?n. \<Sum>j<?n. v ! i * v ! j * ?G i j) + lam * (\<Sum>i<?n. (v ! i)\<^sup>2)"
  proof -
    have "(\<Sum>j<?n. entry M i j * v ! j) = (\<Sum>j<?n. ?G i j * v ! j) + lam * v ! i" if "i < ?n" for i
    proof -
      have "(\<Sum>j<?n. entry M i j * v ! j) = (\<Sum>j<?n. ?G i j * v ! j + (if i = j then lam * v ! j else 0))"
        using that by (intro sum.cong refl) (simp add: ridge_entry[OF K M] algebra_simps)
      also have "\<dots> = (\<Sum>j<?n. ?G i j * v ! j) + (\<Sum>j<?n. if i = j then lam * v ! j else 0)"
        by (simp add: sum.distrib)
      also have "(\<Sum>j<?n. if i = j then lam * v ! j else 0) = lam * v ! i"
        using that by (simp add: sum.delta)
      finally show ?thesis .
    qed
    then have "(\<Sum>i<?n. v ! i * (\<Sum>j<?n. entry M i j * v ! j))
        = (\<Sum>i<?n. v ! i * ((\<Sum>j<?n. ?G i j * v ! j) + lam * v ! i))"
      by (intro sum.cong refl) simp
    also have "\<dots> = (\<Sum>i<?n. (\<Sum>j<?n. v ! i * v ! j * ?G i j) + lam * (v ! i)\<^sup>2)"
      by (intro sum.cong refl) (simp add: algebra_simps sum_distrib_left power2_eq_square)
    also have "\<dots> = (\<Sum>i<?n. \<Sum>j<?n. v ! i * v ! j * ?G i j) + lam * (\<Sum>i<?n. (v ! i)\<^sup>2)"
      by (simp add: sum.distrib sum_distrib_left)
    finally show ?thesis .
  qed
  ultimately have "lam * (\<Sum>i<?n. (v ! i)\<^sup>2) \<le> 0" using psd by simp
  then have "(\<Sum>i<?n. (v ! i)\<^sup>2) \<le> 0" using lam by (simp add: mult_le_0_iff)
  moreover have "0 \<le> (\<Sum>i<?n. (v ! i)\<^sup>2)" by (intro sum_nonneg) simp
  ultimately have "(\<Sum>i<?n. (v ! i)\<^sup>2) = 0" by simp
  then have "\<forall>i<?n. (v ! i)\<^sup>2 = 0"
    by (subst (asm) sum_nonneg_eq_0_iff) simp_all
  then show False using v(2) by auto
qed

subsection \<open>fit_transform returns the first rows of the projection\<close>


lemma fit_transform_pipeline:
  assumes spec: "argsort_spec argsort" and ish: "inv_shape linalg_inv" and ireg: "inv_regular linalg_inv"
    and es: "eigh_shape linalg_eigh" and et: "eigh_total linalg_eigh"
    and rbf: "kernel_type self = ''rbf''" and g: "0 \<le> gamma self" and lam: "0 < lamb self"
    and wfs: "wf_array Xs" and wft: "wf_array Xt"
    and sh: "1 \<le> nrows Xs" "1 \<le> nrows Xt" "ncols Xs = ncols Xt" "1 \<le> ncols Xs"
  shows "\<exists>K M Mi Kc L KcL A w V W Z.
      rbf_kernel (NDArray (ncols Xs) (rows Xs @ rows Xt)) (NDArray (ncols Xs) (rows Xs @ rows Xt))
        (gamma self) = Inr K \<and>
      mat_add K (scale (lamb self) (eye (nrows Xs + nrows Xt))) = Inr M \<and>
      linalg_inv M = Some Mi \<and> matmul Mi K = Inr Kc \<and>
      tca_L (nrows Xs) (nrows Xt) = Inr L \<and> matmul Kc L = Inr KcL \<and> matmul KcL Kc = Inr A \<and>
      linalg_eigh A = Some (w, V) \<and>
      index_cols V (take (dim self) (argsort (map (\<lambda>v. Fin (- v)) w))) = Inr W \<and>
      matmul K W = Inr Z \<and>
      fit_transform argsort linalg_inv linalg_eigh self Xs Xt
        = Inr (NDArray (ncols Z) (take (nrows Xs) (rows Z))) \<and>
      nrows K = nrows Xs + nrows Xt \<and> ncols K = nrows Xs + nrows Xt \<and>
      nrows W = nrows Xs + nrows Xt \<and> ncols W = min (dim self) (nrows Xs + nrows Xt) \<and>
      nrows Z = nrows Xs + nrows Xt \<and> ncols Z = min (dim self) (nrows Xs + nrows Xt) \<and>
      wf_array Z"
proof -
  define n where "n = nrows Xs + nrows Xt"
  let ?X = "NDArray (ncols Xs) (rows Xs @ rows Xt)"
  have nX: "nrows ?X = n" by (simp add: nrows_def n_def)
  have wfX: "wf_array ?X" using wfs wft sh(3) by (simp add: wf_array_def)
  obtain K M where K: "rbf_kernel ?X ?X (gamma self) = Inr K" "ncols K = n" "nrows K = n"
    "mat_add K (scale (lamb self) (eye (nrows Xs + nrows Xt))) = Inr M"
    "ncols M = n" "nrows M = n"
    using ridge_matrix_ok[OF sh(1,3,4), of self] unfolding n_def by blast
  obtain L where L: "tca_L (nrows Xs) (nrows Xt) = Inr L" "ncols L = n" "nrows L = n"
    using tca_L_ok[OF sh(1,2)] unfolding n_def by blast
  have "\<not> singular M"
    using K(4,5,6) by (intro ridge_regular[OF g lam wfX K(1)]) (simp_all add: nX n_def)
  then have "linalg_inv M \<noteq> None" using ireg K(5,6) by (auto simp: inv_regular_def)
  then obtain Mi where Mi: "linalg_inv M = Some Mi" by auto
  have sMi: "ncols Mi = n" "nrows Mi = n" using ish Mi K(5,6) by (auto simp: inv_shape_def)
  obtain Kc where Kc: "matmul Mi K = Inr Kc" "ncols Kc = n" "nrows Kc = n"
    using matmul_ok[of Mi K] sMi K by auto
  obtain KcL where KcL: "matmul Kc L = Inr KcL" "ncols KcL = n" "nrows KcL = n"
    using matmul_ok[of Kc L] Kc L by auto
  obtain A where A: "matmul KcL Kc = Inr A" "ncols A = n" "nrows A = n"
    using matmul_ok[of KcL Kc] Kc KcL by auto
  have "linalg_eigh A \<noteq> None" using et A by (simp add: eigh_total_def)
  then obtain w V where eg: "linalg_eigh A = Some (w, V)" by auto
  have sV: "length w = n" "ncols V = n" "nrows V = n"
    using es eg A by (auto simp: eigh_shape_def)
  define idx where "idx = take (dim self) (argsort (map (\<lambda>v. Fin (- v)) w))"
  have ok: "argsort_ok (map (\<lambda>v. Fin (- v)) w) (argsort (map (\<lambda>v. Fin (- v)) w))"
    using spec by (simp add: argsort_spec_def)
  then have ch: "choice_ok n n (argsort (map (\<lambda>v. Fin (- v)) w))"
    using sV by (simp add: argsort_ok_def)
  have li: "length idx = min (dim self) n"
    using ch by (simp add: idx_def choice_ok_def min.commute)
  have bi: "list_all (\<lambda>j. j < ncols V) idx"
    using ch sV by (auto simp: idx_def choice_ok_def list_all_iff dest: in_set_takeD)
  define W where "W = NDArray (length idx) (map (\<lambda>r. map (\<lambda>j. r ! j) idx) (rows V))"
  have W: "index_cols V idx = Inr W" "ncols W = min (dim self) n" "nrows W = n"
    using bi li sV by (simp_all add: index_cols_def W_def nrows_def)
  obtain Z where Z: "matmul K W = Inr Z" "ncols Z = min (dim self) n" "nrows Z = n" "wf_array Z"
    using matmul_ok[of K W] K W by auto
  have k: "kernel self ?X None = Inr (Some K)"
    using rbf K(1) by (simp add: kernel_def and_then_def)
  have res: "fit_transform argsort linalg_inv linalg_eigh self Xs Xt =
      Inr (NDArray (ncols Z) (take (nrows Xs) (rows Z)))"
    unfolding fit_transform_def vstack2_ok[OF sh(3)] and_then_Inr Let_def k L(1) option.case
      K(4) Mi Kc(1) KcL(1) A(1) eg prod.case idx_def[symmetric] W(1) Z(1) ..
  show ?thesis
    using K(1,4) Mi Kc(1) L(1) KcL(1) A(1) eg W(1)[unfolded idx_def] Z(1) res K(2,3) W(2,3) Z(2,3,4)
    unfolding n_def by blast
qed

lemma fit_transform_returns:
  assumes "argsort_spec argsort" "inv_shape linalg_inv" "inv_regular linalg_inv"
    "eigh_shape linalg_eigh" "eigh_total linalg_eigh"
    "kernel_type self = ''rbf''" "0 \<le> gamma self" "0 < lamb self"
    "wf_array Xs" "wf_array Xt"
    "1 \<le> nrows Xs" "1 \<le> nrows Xt" "ncols Xs = ncols Xt" "1 \<le> ncols Xs"
  shows "\<exists>R. fit_transform argsort linalg_inv linalg_eigh self Xs Xt = Inr R \<and>
           nrows R = nrows Xs \<and> ncols R = min (dim self) (nrows Xs + nrows Xt) \<and> wf_array R"
proof -
  obtain Z where Z: "fit_transform argsort linalg_inv linalg_eigh self Xs Xt
        = Inr (NDArray (ncols Z) (take (nrows Xs) (rows Z)))"
    "nrows Z = nrows Xs + nrows Xt" "ncols Z = min (dim self) (nrows Xs + nrows Xt)" "wf_array Z"
    using fit_transform_pipeline[OF assms] by blast
  have "nrows (NDArray (ncols Z) (take (nrows Xs) (rows Z))) = nrows Xs"
    using Z(2) by (simp add: nrows_def)
  moreover have "wf_array (NDArray (ncols Z) (take (nrows Xs) (rows Z)))"
    using Z(4) by (auto simp: wf_array_def list_all_iff dest: in_set_takeD)
  ultimately show ?thesis using Z(1,3) by simp
qed

lemma ridge_matrix_regular:
  assumes ireg: "inv_regular linalg_inv" and g: "0 \<le> gamma self" and lam: "0 < lamb self"
    and wfs: "wf_array Xs" and wft: "wf_array Xt"
    and sh: "1 \<le> nrows Xs" "ncols Xs = ncols Xt" "1 \<le> ncols Xs"
  shows "\<exists>M Mi. ridge_matrix self Xs Xt = Inr M \<and> \<not> singular M \<and> linalg_inv M = Some Mi"
proof -
  let ?X = "NDArray (ncols Xs) (rows Xs @ rows Xt)"
  have nX: "nrows ?X = nrows Xs + nrows Xt" by (simp add: nrows_def)
  have wfX: "wf_array ?X" using wfs wft sh(2) by (simp add: wf_array_def)
  obtain K M where K: "rbf_kernel ?X ?X (gamma self) = Inr K"
    "mat_add K (scale (lamb self) (eye (nrows Xs + nrows Xt))) = Inr M"
    "ridge_matrix self Xs Xt = Inr M"
    "ncols M = nrows Xs + nrows Xt" "nrows M = nrows Xs + nrows Xt"
    using ridge_matrix_ok[OF sh, of self] by blast
  have r: "\<not> singular M"
    using K(2,4,5) by (intro ridge_regular[OF g lam wfX K(1)]) (simp_all add: nX)
  have "linalg_inv M \<noteq> None"
  proof
    assume "linalg_inv M = None"
    then have "singular M" using ireg K(4,5) unfolding inv_regular_def by simp
    then show False using r by simp
  qed
  then show ?thesis using K(3) r by auto
qed

lemma inv2_shape: "inv_shape inv2"
  by (auto simp: inv_shape_def inv2_def Let_def nrows_def split: if_splits)

lemma eigh_zero_shape: "eigh_shape eigh_zero"
  by (auto simp: eigh_shape_def eigh_zero_def eye_def nrows_def split: if_splits)













subsection \<open>Two points, with exact linear algebra\<close>

lemma inv_total2_shape: "inv_shape inv_total2"
  by (auto simp: inv_shape_def inv_total2_def inv2_def Let_def nrows_def split: if_splits)

lemma singular_2x2:
  assumes c: "ncols M = 2" and r: "nrows M = 2"
    and det: "entry M 0 0 * entry M 1 1 - entry M 0 1 * entry M 1 0 = 0"
  shows "singular M"
proof -
  let ?a = "entry M 0 0" and ?b = "entry M 0 1" and ?c = "entry M 1 0" and ?d = "entry M 1 1"
  have two: "(\<Sum>j<2. f j) = f 0 + f (1::nat)" for f :: "nat \<Rightarrow> real"
    by (simp add: numeral_2_eq_2)
  have ex: "\<exists>v. length v = 2 \<and> (v ! 0 \<noteq> 0 \<or> v ! 1 \<noteq> 0) \<and>
      ?a * v ! 0 + ?b * v ! 1 = 0 \<and> ?c * v ! 0 + ?d * v ! 1 = 0"
  proof (cases "?a = 0 \<and> ?b = 0")
    case False
    have "?c * ?b + ?d * (- ?a) = 0" using det by (simp add: algebra_simps)
    then show ?thesis using False by (intro exI[of _ "[?b, - ?a]"]) auto
  next
    case True
    show ?thesis
    proof (cases "?c = 0 \<and> ?d = 0")
      case False
      then show ?thesis using True by (intro exI[of _ "[?d, - ?c]"]) auto
    next
      case zero: True
      show ?thesis using True zero by (intro exI[of _ "[1, 0]"]) simp
    qed
  qed
  then obtain v where v: "length v = 2" "v ! 0 \<noteq> 0 \<or> v ! 1 \<noteq> 0"
    "?a * v ! 0 + ?b * v ! 1 = 0" "?c * v ! 0 + ?d * v ! 1 = 0" by blast
  have "\<exists>j<2. v ! j \<noteq> 0" 
  proof (cases "v ! 0 = 0")
    case True
    then have "v ! 1 \<noteq> 0" using v(2) by simp
    then show ?thesis by (intro exI[of _ 1]) simp
  next
    case False
    then show ?thesis by (intro exI[of _ 0]) simp
  qed
  moreover have "\<forall>i<2. (\<Sum>j<2. entry M i j * v ! j) = 0"
    using v(3,4) by (auto simp: two less_2_cases_iff)
  ultimately show ?thesis unfolding singular_def c r using v(1) by blast
qed

lemma inv_total2_regular: "inv_regular inv_total2"
  unfolding inv_regular_def
proof (intro allI impI)
  fix M assume h: "nrows M = ncols M \<and> inv_total2 M = None"
  then have s: "ncols M = 2" "nrows M = 2" and n: "inv2 M = None"
    by (auto simp: inv_total2_def split: if_splits)
  have "entry M 0 0 * entry M 1 1 - entry M 0 1 * entry M 1 0 = 0"
    using n s by (auto simp: inv2_def Let_def split: if_splits)
  then show "singular M" by (rule singular_2x2[OF s])
qed

lemma eigh_diff2_shape: "eigh_shape eigh_diff2"
  by (auto simp: eigh_shape_def eigh_diff2_def Let_def eye_def nrows_def split: if_splits)

lemma eigh_diff2_total: "eigh_total eigh_diff2"
  by (simp add: eigh_total_def eigh_diff2_def Let_def)



lemma duplicate_points_ridge:
  "ridge_matrix \<lparr>dim = k, kernel_type = ''rbf'', lamb = c, gamma = g\<rparr> one_point one_point
     = Inr (NDArray 2 [[1 + c, 1], [1, 1 + c]])"
  by (simp add: ridge_matrix_def vstack_def one_point_def and_then_def rbf_kernel_def nrows_def
      sq_dist_def mat_add_def scale_def eye_def upt_rec)

lemma singular_kernel_raises:
  "fit_transform argsort inv_total2 linalg_eigh
     \<lparr>dim = k, kernel_type = ''rbf'', lamb = 0, gamma = g\<rparr> one_point one_point = Inl LinAlgError"
proof -
  have n: "1 \<le> nrows one_point" by (simp add: one_point_def nrows_def)
  have i: "inv_total2 (NDArray 2 [[1 + 0, 1], [1, 1 + 0]]) = None"
    by (simp add: inv_total2_def inv2_def nrows_def entry_def)
  show ?thesis
    by (rule fit_transform_inv_fails[where linalg_inv = inv_total2, OF _ n n duplicate_points_ridge i])
      simp
qed

lemma singular_ones2: "singular ones2"
  by (rule singular_2x2) (simp_all add: ones2_def nrows_def entry_def)

lemma negative_gamma_singular:
  "ridge_matrix \<lparr>dim = k, kernel_type = ''rbf'', lamb = exp 1 - 1, gamma = - 1\<rparr>
     one_point unit_point = Inr (NDArray 2 [[exp 1, exp 1], [exp 1, exp 1]])"
  "singular (NDArray 2 [[exp 1, exp 1], [exp 1, exp 1]])"
proof -
  show "ridge_matrix \<lparr>dim = k, kernel_type = ''rbf'', lamb = exp 1 - 1, gamma = - 1\<rparr>
     one_point unit_point = Inr (NDArray 2 [[exp 1, exp 1], [exp 1, exp 1]])"
    by (simp add: ridge_matrix_def vstack_def one_point_def unit_point_def and_then_def
        rbf_kernel_def nrows_def sq_dist_def mat_add_def scale_def eye_def upt_rec)
  show "singular (NDArray 2 [[exp 1, exp 1], [exp 1, exp 1]])"
    by (rule singular_2x2) (simp_all add: nrows_def entry_def)
qed






section \<open>Properties of the seed construction and of the loop\<close>

lemma time_steps_length: "length time_steps = 21"
  by (simp add: time_steps_def py_range_def)

lemma uniform_Inr:
  assumes "uniform lo hi n c u = Inr A"
  shows "0 \<le> n \<and> nrows A = nat n \<and> ncols A = c \<and> wf_array A"
  using assms
  by (auto simp: uniform_def nrows_def wf_array_def list_all_iff split: if_splits option.splits)

lemma uniform_ok:
  assumes "length lo = c" "length hi = c" "0 \<le> n"
  shows "\<exists>A. uniform lo hi n c u = Inr A \<and> ncols A = c \<and> nrows A = nat n \<and> wf_array A"
  using assms by (simp add: uniform_def broadcast_def nrows_def wf_array_def list_all_iff)

lemma uniform_width_fails:
  assumes "length lo \<noteq> c" "length lo \<noteq> 1"
  shows "uniform lo hi n c u = Inl ValueError"
  using assms by (simp add: uniform_def broadcast_def)

lemma vstack2_Inr:
  assumes "vstack [A, B] = Inr C"
  shows "ncols B = ncols A \<and> ncols C = ncols A \<and> rows C = rows A @ rows B"
  using assms by (auto simp: vstack_def split: if_splits)

lemma vstack3_ok:
  assumes "ncols B = ncols A" "ncols C = ncols A"
  shows "vstack [A, B, C] = Inr (NDArray (ncols A) (rows A @ rows B @ rows C))"
  using assms by (simp add: vstack_def)

lemma index_rows_ok:
  assumes "list_all (\<lambda>i. i < nrows A) idx"
  shows "index_rows A idx = Inr (take_rows A idx)"
  using assms by (simp add: index_rows_def)

lemma take_rows_shape:
  "ncols (take_rows A idx) = ncols A" "nrows (take_rows A idx) = length idx"
  by (simp_all add: take_rows_def nrows_def)

lemma take_rows_wf:
  assumes "wf_array A" "list_all (\<lambda>i. i < nrows A) idx"
  shows "wf_array (take_rows A idx)"
  using assms by (auto simp: wf_array_def take_rows_def list_all_iff nrows_def)

lemma build_seed_rows:
  assumes "build_seed L dr p saved = Inr seed"
  shows "nrows seed = population_size"
proof -
  from assms obtain final fill where
    f: "uniform (xl p) (xu p) (int population_size - int (nrows final)) (n_var p) (fill_u dr) = Inr fill"
    and v: "vstack [final, fill] = Inr seed"
    unfolding build_seed_def and_then_eq_Inr Let_def by blast
  have "0 \<le> int population_size - int (nrows final)"
    and "nrows fill = nat (int population_size - int (nrows final))"
    using uniform_Inr[OF f] by simp_all
  moreover have "nrows seed = nrows final + nrows fill"
    using vstack2_Inr[OF v] by (simp add: nrows_def)
  ultimately show ?thesis by simp
qed

lemma select_subset_shape:
  assumes spec: "argsort_spec argsort" and w: "list_all (\<lambda>x. length x = c) saved"
    and ne: "saved \<noteq> []"
    and ev: "list_all (\<lambda>x. length (evaluate p x) = n_obj p) saved"
  shows "\<exists>S. select_subset argsort saved p k = Inr S \<and> ncols S = c \<and>
           nrows S = min (length saved) k \<and> wf_array S"
proof -
  have hd: "length (hd saved) = c" using w ne by (cases saved) simp_all
  have rect: "rectangular saved" using w hd by (simp add: rectangular_def)
  show ?thesis
  proof (cases "length saved \<le> k")
    case True
    then show ?thesis using ne w hd
      by (simp add: select_subset_def np_array_rectangular[OF rect ne] and_then_def nrows_def
          wf_array_def)
  next
    case False
    then have big: "k < length saved" by simp
    let ?idx = "take k (argsort (map Fin (objective_sums p saved)))"
    have r: "select_subset argsort saved p k
        = Inr (NDArray (length (hd saved)) (map (\<lambda>i. saved ! i) ?idx))"
      and ch: "choice_ok (length saved) k ?idx"
      using select_subset_large[OF spec rect ev big] by simp_all
    have "wf_array (NDArray (length (hd saved)) (map (\<lambda>i. saved ! i) ?idx))"
      using ch w hd by (auto simp: wf_array_def choice_ok_def list_all_iff)
    then show ?thesis using r ch hd big by (simp add: nrows_def choice_ok_def)
  qed
qed

lemma crowding_distance_length:
  assumes "argsort_spec argsort" "1 \<le> nrows F"
  shows "\<exists>cd. crowding_distance argsort F = Inr cd \<and> length cd = nrows F"
  using crowding_distance_points[OF assms] by simp

lemma argsort_take_bound:
  assumes "argsort_spec argsort"
  shows "list_all (\<lambda>i. i < length xs) (take k (argsort xs))"
    and "length (take k (argsort xs)) = min k (length xs)"
proof -
  have "choice_ok (length xs) (length xs) (argsort xs)"
    using assms by (simp add: argsort_spec_def argsort_ok_def)
  then show "list_all (\<lambda>i. i < length xs) (take k (argsort xs))"
    and "length (take k (argsort xs)) = min k (length xs)"
    by (auto simp: choice_ok_def list_all_iff min.commute dest: in_set_takeD)
qed

lemma fl_neg_le: "fl_neg a \<le> fl_neg b \<longleftrightarrow> b \<le> a"
  by (cases a; cases b) (simp_all add: fl_neg_def less_eq_fl_def)

lemma argsort_take_largest:
  assumes ok: "argsort_ok (map fl_neg cd) s" and i: "i \<in> set (take k s)"
    and j: "j < length cd" "j \<notin> set (take k s)"
  shows "cd ! j \<le> cd ! i"
proof -
  have ch: "choice_ok (length cd) (length cd) s" and so: "sorted (map (\<lambda>i. map fl_neg cd ! i) s)"
    using ok by (simp_all add: argsort_ok_def)
  obtain b where b: "b < length cd" "s ! b = j" using choice_full_surj[OF ch j(1)] by blast
  have ls: "length s = length cd" using ch by (simp add: choice_ok_def)
  have bk: "k \<le> b"
  proof (rule ccontr)
    assume "\<not> k \<le> b"
    then have "s ! b \<in> set (take k s)" using b(1) ls by (auto simp: in_set_conv_nth)
    then show False using j(2) b(2) by simp
  qed
  obtain a where a: "a < k" "a < length s" "s ! a = i"
    using i by (auto simp: in_set_conv_nth)
  have bound: "\<forall>x\<in>set s. x < length cd" using ch by (simp add: choice_ok_def list_all_iff)
  have "map (\<lambda>i. map fl_neg cd ! i) s ! a \<le> map (\<lambda>i. map fl_neg cd ! i) s ! b"
    using so a bk b(1) ls by (intro sorted_nth_mono) simp_all
  then have "map fl_neg cd ! (s ! a) \<le> map fl_neg cd ! (s ! b)" using a b ls by simp
  moreover have "s ! a < length cd" "s ! b < length cd"
    using bound a(2) b(1) ls by (simp_all add: nth_mem)
  ultimately have "cd ! (s ! b) \<le> cd ! (s ! a)" by (simp add: fl_neg_le)
  then show ?thesis unfolding a(3) b(2) .
qed

lemma build_seed_parts:
  assumes sp: "argsort_spec (np_argsort L)" and ish: "inv_shape (np_inv L)"
    and ireg: "inv_regular (np_inv L)"
    and es: "eigh_shape (np_eigh L)" and et: "eigh_total (np_eigh L)"
    and nd: "nds_spec (nds_do L)"
    and nv: "n_var p = 10" and lo: "length (xl p) = 10" and hi: "length (xu p) = 10"
    and ne: "saved \<noteq> []" and w: "list_all (\<lambda>x. length x = 10) saved"
    and ev: "list_all (\<lambda>x. length (evaluate p x) = n_obj p) saved"
    and pick: "choice_ok (min (length saved) 100) (min 40 (length saved)) (transfer_pick dr)"
  shows "\<exists>T0 S Z T Fs nds front Ff cd sel E R Fl seed.
      uniform (xl p) (xu p) 50 10 (target_u dr) = Inr T0 \<and>
      select_subset (np_argsort L) saved p 100 = Inr S \<and>
      transfer_solutions (np_argsort L) (np_inv L) (np_eigh L) S T0 = Inr Z \<and>
      nrows Z = min (length saved) 100 \<and>
      index_rows Z (transfer_pick dr) = Inr T \<and> T = take_rows Z (transfer_pick dr) \<and>
      evaluate_rows p saved = Inr Fs \<and> nds = nds_do L Fs \<and>
      index_rows (NDArray 10 saved) nds = Inr front \<and> rows front = map (\<lambda>i. saved ! i) nds \<and>
      index_rows Fs nds = Inr Ff \<and>
      crowding_distance (np_argsort L) Ff = Inr cd \<and> length cd = length nds \<and>
      sel = take 40 (np_argsort L (map fl_neg cd)) \<and>
      index_rows front sel = Inr E \<and> rows E = map (\<lambda>i. saved ! (nds ! i)) sel \<and>
      set (rows E) \<subseteq> set saved \<and>
      (\<forall>i\<in>set sel. \<forall>j<length cd. j \<notin> set sel \<longrightarrow> cd ! j \<le> cd ! i) \<and>
      uniform (xl p) (xu p) 20 10 (random_u dr) = Inr R \<and>
      uniform (xl p) (xu p) (int population_size - int (nrows T + nrows R + nrows E)) (n_var p)
        (fill_u dr) = Inr Fl \<and>
      build_seed L dr p saved = Inr seed \<and>
      rows seed = rows T @ rows R @ rows E @ rows Fl \<and>
      nrows T = min 40 (length saved) \<and> nrows R = 20 \<and> nrows E = min 40 (length nds) \<and>
      1 \<le> nrows E \<and> nrows E \<le> 40 \<and>
      nrows Fl = population_size - (nrows T + nrows R + nrows E) \<and>
      nrows seed = population_size \<and> ncols seed = 10 \<and> wf_array seed"
proof -
  obtain T0 where T0: "uniform (xl p) (xu p) 50 10 (target_u dr) = Inr T0"
    "ncols T0 = 10" "nrows T0 = 50" "wf_array T0"
    using uniform_ok[OF lo hi, of 50 "target_u dr"] by auto
  obtain S where S: "select_subset (np_argsort L) saved p 100 = Inr S" "ncols S = 10"
    "nrows S = min (length saved) 100" "wf_array S"
    using select_subset_shape[OF sp w ne ev, of 100] by blast
  have S1: "1 \<le> nrows S" using S(3) ne by (cases saved) simp_all
  have cfg: "kernel_type transfer_tca = ''rbf''" "0 \<le> gamma transfer_tca" "0 < lamb transfer_tca"
    by (simp_all add: transfer_tca_def)
  obtain Z where Z0: "transfer_solutions (np_argsort L) (np_inv L) (np_eigh L) S T0 = Inr Z"
    "nrows Z = nrows S" "ncols Z = min (dim transfer_tca) (nrows S + nrows T0)" "wf_array Z"
    unfolding transfer_solutions_def
    using fit_transform_returns[OF sp ish ireg es et cfg S(4) T0(4) S1, of ] T0 S by auto
  have Z: "nrows Z = min (length saved) 100" "ncols Z = 10" "wf_array Z"
    using Z0 S(3) T0(3) by (simp_all add: transfer_tca_def)
  define Fs where "Fs = NDArray (n_obj p) (map (evaluate p) saved)"
  have Fs: "evaluate_rows p saved = Inr Fs" unfolding Fs_def by (rule evaluate_rows_ok[OF ev])
  have nFs: "nrows Fs = length saved" by (simp add: Fs_def nrows_def)
  define nds where "nds = nds_do L Fs"
  have "1 \<le> nrows Fs" using nFs ne by (cases saved) simp_all
  then have nds: "nds \<noteq> []" "list_all (\<lambda>i. i < nrows Fs) nds"
    using nd by (simp_all add: nds_spec_def nds_def)
  define A where "A = NDArray 10 saved"
  have hd: "length (hd saved) = 10" using w ne by (cases saved) simp_all
  have A: "np_array saved = Inr A"
    unfolding A_def using np_array_rectangular[OF _ ne] w hd by (simp add: rectangular_def)
  have wfA: "wf_array A" "nrows A = length saved" "ncols A = 10"
    using w by (simp_all add: A_def wf_array_def nrows_def)
  have ndA: "list_all (\<lambda>i. i < nrows A) nds" using nds(2) nFs wfA(2) by simp
  define front where "front = take_rows A nds"
  have front: "index_rows A nds = Inr front" unfolding front_def by (rule index_rows_ok[OF ndA])
  have wff: "wf_array front" "ncols front = 10" "nrows front = length nds"
    using take_rows_wf[OF wfA(1) ndA] wfA(3) by (simp_all add: front_def take_rows_shape)
  have rfront: "rows front = map (\<lambda>i. saved ! i) nds"
    by (simp add: front_def take_rows_def A_def)
  define Ff where "Ff = take_rows Fs nds"
  have Ff: "index_rows Fs nds = Inr Ff" unfolding Ff_def by (rule index_rows_ok[OF nds(2)])
  have nFf: "nrows Ff = length nds" by (simp add: Ff_def take_rows_shape)
  have "1 \<le> nrows Ff" using nFf nds(1) by (cases nds) simp_all
  then obtain cd where cd: "crowding_distance (np_argsort L) Ff = Inr cd" "length cd = nrows Ff"
    using crowding_distance_length[OF sp] by blast
  define sel where "sel = take 40 (np_argsort L (map fl_neg cd))"
  have sel: "list_all (\<lambda>i. i < nrows front) sel" "length sel = min 40 (length nds)"
    using argsort_take_bound[OF sp, where k = 40 and xs = "map fl_neg cd"] cd(2) nFf wff(3)
    by (simp_all add: sel_def)
  have ok: "argsort_ok (map fl_neg cd) (np_argsort L (map fl_neg cd))"
    using sp by (simp add: argsort_spec_def)
  have largest: "\<forall>i\<in>set sel. \<forall>j<length cd. j \<notin> set sel \<longrightarrow> cd ! j \<le> cd ! i"
    unfolding sel_def using argsort_take_largest[OF ok] by blast
  define best where "best = take_rows front sel"
  have best: "index_rows front sel = Inr best" unfolding best_def by (rule index_rows_ok[OF sel(1)])
  have wfb: "wf_array best" "ncols best = 10" "nrows best = min 40 (length nds)"
    using take_rows_wf[OF wff(1) sel(1)] wff(2) sel(2) by (simp_all add: best_def take_rows_shape)
  have selb: "\<forall>i\<in>set sel. i < length nds" using sel(1) wff(3) by (simp add: list_all_iff)
  have ndb: "\<forall>i\<in>set nds. i < length saved" using nds(2) nFs by (simp add: list_all_iff)
  have rbest: "rows best = map (\<lambda>i. saved ! (nds ! i)) sel"
    using selb by (simp add: best_def take_rows_def rfront)
  have sub: "set (rows best) \<subseteq> set saved"
    unfolding rbest using selb ndb by (auto simp: nth_mem)
  have pk: "list_all (\<lambda>i. i < nrows Z) (transfer_pick dr)"
    "length (transfer_pick dr) = min 40 (length saved)"
    using pick Z(1) by (simp_all add: choice_ok_def)
  define st where "st = take_rows Z (transfer_pick dr)"
  have st: "index_rows Z (transfer_pick dr) = Inr st" unfolding st_def by (rule index_rows_ok[OF pk(1)])
  have wfs: "wf_array st" "ncols st = 10" "nrows st = min 40 (length saved)"
    using take_rows_wf[OF Z(3) pk(1)] Z(2) pk(2) by (simp_all add: st_def take_rows_shape)
  obtain R where R: "uniform (xl p) (xu p) 20 10 (random_u dr) = Inr R"
    "ncols R = 10" "nrows R = 20" "wf_array R"
    using uniform_ok[OF lo hi, of 20 "random_u dr"] by auto
  define fin where "fin = NDArray (ncols st) (rows st @ rows R @ rows best)"
  have fin: "vstack [st, R, best] = Inr fin"
    unfolding fin_def using wfs(2) R(2) wfb(2) by (intro vstack3_ok) simp_all
  have nfin: "nrows fin = nrows st + nrows R + nrows best"
    by (simp add: fin_def nrows_def)
  have need: "0 \<le> int population_size - int (nrows fin)"
    using nfin wfs(3) R(3) wfb(3) by (simp add: population_size_def)
  obtain Fl where Fl: "uniform (xl p) (xu p) (int population_size - int (nrows fin)) (n_var p) (fill_u dr) = Inr Fl"
    "ncols Fl = 10" "nrows Fl = nat (int population_size - int (nrows fin))" "wf_array Fl"
    using uniform_ok[of "xl p" "n_var p" "xu p" "int population_size - int (nrows fin)" "fill_u dr"]
      lo hi nv need by auto
  define seed where "seed = NDArray 10 (rows fin @ rows Fl)"
  have seed: "vstack [fin, Fl] = Inr seed"
    using Fl(2) wfs(2) by (simp add: vstack_def seed_def fin_def)
  have res: "build_seed L dr p saved = Inr seed"
    unfolding build_seed_def T0(1) S(1) and_then_Inr Z0(1) Fs Let_def A nds_def[symmetric]
      front Ff cd(1) sel_def[symmetric] best st R(1) fin Fl(1) seed ..
  have n: "nrows seed = population_size"
    using Fl(3) need by (simp add: seed_def nrows_def)
  have c: "ncols seed = 10" by (simp add: seed_def)
  have wfseed: "wf_array seed"
    using wfs(1,2) R(4,2) wfb(1,2) Fl(4,2) by (simp add: seed_def fin_def wf_array_def)
  have comp: "rows seed = rows st @ rows R @ rows best @ rows Fl"
    by (simp add: seed_def fin_def)
  have one: "1 \<le> nrows best" "nrows best \<le> 40"
    using wfb(3) nds(1) by (cases nds; simp)+
  have nFl: "nrows Fl = population_size - (nrows st + nrows R + nrows best)"
    using Fl(3) nfin by simp
  have Fl': "uniform (xl p) (xu p) (int population_size - int (nrows st + nrows R + nrows best))
      (n_var p) (fill_u dr) = Inr Fl"
    using Fl(1) nfin by simp
  show ?thesis
    using T0(1) S(1) Z0(1) Z(1) st st_def Fs nds_def front[unfolded A_def] rfront Ff cd(1)
      cd(2)[unfolded nFf] sel_def best rbest sub largest R(1) Fl' res comp wfs(3) R(3) wfb(3)
      one nFl n c wfseed
    by blast
qed

lemma build_seed_returns:
  assumes "argsort_spec (np_argsort L)" and "inv_shape (np_inv L)"
    and "inv_regular (np_inv L)"
    and "eigh_shape (np_eigh L)" and "eigh_total (np_eigh L)"
    and "nds_spec (nds_do L)"
    and "n_var p = 10" and "length (xl p) = 10" and "length (xu p) = 10"
    and "saved \<noteq> []" and "list_all (\<lambda>x. length x = 10) saved"
    and "list_all (\<lambda>x. length (evaluate p x) = n_obj p) saved"
    and "choice_ok (min (length saved) 100) (min 40 (length saved)) (transfer_pick dr)"
  shows "\<exists>seed. build_seed L dr p saved = Inr seed \<and> nrows seed = population_size \<and>
           ncols seed = 10 \<and> wf_array seed"
proof -
  from build_seed_parts[OF assms] obtain seed where
    "build_seed L dr p saved = Inr seed" "nrows seed = population_size" "ncols seed = 10"
    "wf_array seed"
    by (elim exE conjE) (rule that)
  then show ?thesis by blast
qed

lemma uniform_Inl: "uniform lo hi n c u = Inl e \<Longrightarrow> e = ValueError"
  by (auto simp: uniform_def split: if_splits option.splits)

lemma fit_transform_width_fails:
  assumes "ncols Xs \<noteq> ncols Xt"
  shows "fit_transform argsort linalg_inv linalg_eigh self Xs Xt = Inl ValueError"
  using assms by (simp add: fit_transform_def vstack_def and_then_def)

lemma build_seed_empty_archive: "build_seed L dr p [] = Inl ValueError"
proof (cases "uniform (xl p) (xu p) 50 10 (target_u dr)")
  case (Inl e)
  then have "e = ValueError" by (rule uniform_Inl)
  then show ?thesis unfolding build_seed_def Inl and_then_Inl by simp
next
  case (Inr T0)
  have c: "ncols T0 = 10" using uniform_Inr[OF Inr] by simp
  have s: "select_subset (np_argsort L) [] p 100 = Inr (NDArray 0 [])"
    by (simp add: select_subset_def np_array_def and_then_def nrows_def)
  have t: "transfer_solutions (np_argsort L) (np_inv L) (np_eigh L) (NDArray 0 []) T0 = Inl ValueError"
    unfolding transfer_solutions_def using c by (intro fit_transform_width_fails) simp
  show ?thesis unfolding build_seed_def Inr s and_then_Inr t and_then_Inl ..
qed

lemma build_seed_transfer_error:
  assumes "uniform (xl p) (xu p) 50 10 (target_u dr) = Inr T0"
    and "select_subset (np_argsort L) saved p 100 = Inr S"
    and "transfer_solutions (np_argsort L) (np_inv L) (np_eigh L) S T0 = Inl err"
  shows "build_seed L dr p saved = Inl err"
  unfolding build_seed_def assms and_then_Inr and_then_Inl ..

lemma env_step_seed_error:
  assumes "0 < idx" and "build_seed L (draws idx) (make_problem L t) (st_saved st) = Inl e"
  shows "env_step L draws st (idx, t) = Inl e"
  using assms by (simp add: env_step_def Let_def and_then_def)

lemma build_seed_wrong_width:
  assumes sp: "argsort_spec (np_argsort L)"
    and nv: "n_var p \<noteq> 10" and lo: "length (xl p) = n_var p" and hi: "length (xu p) = n_var p"
    and w: "list_all (\<lambda>x. length x = n_var p) saved"
    and ev: "list_all (\<lambda>x. length (evaluate p x) = n_obj p) saved"
  shows "build_seed L dr p saved = Inl ValueError"
    and "n_var p \<noteq> 1 \<Longrightarrow> uniform (xl p) (xu p) 50 10 (target_u dr) = Inl ValueError"
    and "n_var p = 1 \<Longrightarrow> saved \<noteq> [] \<Longrightarrow>
           \<exists>T0 S. uniform (xl p) (xu p) 50 10 (target_u dr) = Inr T0 \<and>
             select_subset (np_argsort L) saved p 100 = Inr S \<and>
             transfer_solutions (np_argsort L) (np_inv L) (np_eigh L) S T0 = Inl ValueError"
proof -
  show u: "uniform (xl p) (xu p) 50 10 (target_u dr) = Inl ValueError" if "n_var p \<noteq> 1"
    using that nv lo by (intro uniform_width_fails) simp_all
  have one: "\<exists>T0 S. uniform (xl p) (xu p) 50 10 (target_u dr) = Inr T0 \<and>
             select_subset (np_argsort L) saved p 100 = Inr S \<and>
             transfer_solutions (np_argsort L) (np_inv L) (np_eigh L) S T0 = Inl ValueError"
    if v1: "n_var p = 1" and ne: "saved \<noteq> []"
  proof -
    obtain T0 where T0: "uniform (xl p) (xu p) 50 10 (target_u dr) = Inr T0"
      using lo hi v1 by (auto simp: uniform_def broadcast_def)
    have c: "ncols T0 = 10" using uniform_Inr[OF T0] by simp
    obtain S where S: "select_subset (np_argsort L) saved p 100 = Inr S" "ncols S = n_var p"
      using select_subset_shape[OF sp w ne ev, of 100] by blast
    have "transfer_solutions (np_argsort L) (np_inv L) (np_eigh L) S T0 = Inl ValueError"
      unfolding transfer_solutions_def using c S(2) v1 by (intro fit_transform_width_fails) simp
    then show ?thesis using T0 S(1) by blast
  qed
  then show "n_var p = 1 \<Longrightarrow> saved \<noteq> [] \<Longrightarrow>
           \<exists>T0 S. uniform (xl p) (xu p) 50 10 (target_u dr) = Inr T0 \<and>
             select_subset (np_argsort L) saved p 100 = Inr S \<and>
             transfer_solutions (np_argsort L) (np_inv L) (np_eigh L) S T0 = Inl ValueError" .
  show "build_seed L dr p saved = Inl ValueError"
  proof (cases "n_var p = 1")
    case False
    show ?thesis unfolding build_seed_def u[OF False] and_then_Inl ..
  next
    case True
    show ?thesis
    proof (cases "saved = []")
      case True
      then show ?thesis by (simp add: build_seed_empty_archive)
    next
      case False
      obtain T0 S where "uniform (xl p) (xu p) 50 10 (target_u dr) = Inr T0"
        "select_subset (np_argsort L) saved p 100 = Inr S"
        "transfer_solutions (np_argsort L) (np_inv L) (np_eigh L) S T0 = Inl ValueError"
        using one[OF True False] by blast
      then show ?thesis unfolding build_seed_def by (simp add: and_then_def)
    qed
  qed
qed



lemma libs_double_specs:
  "argsort_spec (np_argsort libs_double)" "inv_shape (np_inv libs_double)"
  "inv_regular (np_inv libs_double)"
  "eigh_shape (np_eigh libs_double)" "eigh_total (np_eigh libs_double)"
  "nds_spec (nds_do libs_double)"
  by (auto simp: libs_double_def argsort_stable_spec inv_shape_def inv_regular_def eigh_shape_def
      eigh_total_def nds_spec_def eye_def nrows_def)

lemma problem10_bounds:
  "n_var problem10 = 10" "length (xl problem10) = 10" "length (xu problem10) = 10"
  "n_obj problem10 = 2" "length (evaluate problem10 x) = n_obj problem10"
  by (simp_all add: problem10_def)

lemma build_seed_double:
  assumes "1 \<le> k"
  shows "\<exists>seed. build_seed libs_double (draws_example k) problem10 (replicate k zero10) = Inr seed \<and>
           nrows seed = population_size \<and> ncols seed = 10 \<and> wf_array seed"
proof -
  have pick: "choice_ok (min (length (replicate k zero10)) 100) (min 40 (length (replicate k zero10)))
      (transfer_pick (draws_example k))"
    by (auto simp: draws_example_def choice_ok_def list_all_iff)
  have ne: "replicate k zero10 \<noteq> []" using assms by (cases k) simp_all
  have w: "list_all (\<lambda>x. length x = 10) (replicate k zero10)"
    by (simp add: list_all_iff zero10_def)
  have ev: "list_all (\<lambda>x. length (evaluate problem10 x) = n_obj problem10) (replicate k zero10)"
    by (simp add: list_all_iff problem10_bounds)
  show ?thesis
    by (rule build_seed_returns[OF libs_double_specs problem10_bounds(1,2,3) ne w ev pick])
qed

lemma env_step_appends:
  assumes "env_step L draws st it = Inr st'"
  shows "length (st_fronts st') = Suc (length (st_fronts st)) \<and>
         length (st_migd_vals st') = Suc (length (st_migd_vals st)) \<and>
         length (st_sp_vals st') = Suc (length (st_sp_vals st)) \<and>
         length (st_ms_vals st') = Suc (length (st_ms_vals st))"
  using assms unfolding env_step_def Let_def and_then_eq_Inr by auto

lemma fold_env_step_fronts:
  "fold_err (env_step L draws) st its = Inr st' \<Longrightarrow>
   length (st_fronts st') = length (st_fronts st) + length its \<and>
   length (st_migd_vals st') = length (st_migd_vals st) + length its \<and>
   length (st_ms_vals st') = length (st_ms_vals st) + length its"
proof (induction its arbitrary: st)
  case Nil
  then show ?case by simp
next
  case (Cons it its)
  then obtain s1 where s1: "env_step L draws st it = Inr s1"
    "fold_err (env_step L draws) s1 its = Inr st'"
    by (auto split: sum.splits)
  show ?case using env_step_appends[OF s1(1)] Cons.IH[OF s1(2)] by simp
qed

lemma run_loop_fronts:
  assumes "run_loop L draws = Inr st"
  shows "length (st_fronts st) = 21 \<and> length (st_migd_vals st) = 21 \<and> length (st_ms_vals st) = 21"
  using fold_env_step_fronts[OF assms[unfolded run_loop_def]]
  by (simp add: initial_state_def enumerate_list_def time_steps_length)

lemma compute_ms_double:
  "compute_ms (NDArray 2 [[0, 1]]) (pareto_front problem10) = Inr (Value 0)"
  by (simp add: compute_ms_def problem10_def and_then_def axis_min_def axis_max_def nrows_def
      column_def amin_def amax_def ms_component_def Let_def upt_rec)

lemma env_step_double:
  assumes a: "st_saved st = replicate idx zero10" and b: "idx < 1000"
  shows "\<exists>st'. env_step libs_double draws_example st (idx, t) = Inr st' \<and>
           st_saved st' = replicate (Suc idx) zero10"
proof -
  have sv: "save_elite_solutions problem10 [zero10] (NDArray 2 [[0, 1::real]]) driver_max_save
      (replicate idx zero10) save_each_prob [] [] = replicate (Suc idx) zero10"
    using b by (simp add: save_elite_solutions_def driver_max_save_def save_each_prob_def Let_def
        replicate_append_same)
  have f: "make_problem libs_double t = problem10"
    "nsga2_minimize libs_double idx problem10 smp = (NDArray 10 [zero10], NDArray 2 [[0, 1]])"
    for smp
    by (simp_all add: libs_double_def)
  have pre: "\<exists>smp. (if idx = 0 then Inr None
            else and_then (build_seed libs_double (draws_example idx) problem10 (st_saved st))
                   (\<lambda>full_sampling. Inr (Some full_sampling))) = Inr smp"
  proof (cases "idx = 0")
    case True
    then show ?thesis by simp
  next
    case False
    then obtain seed where "build_seed libs_double (draws_example idx) problem10 (replicate idx zero10)
        = Inr seed"
      using build_seed_double[of idx] by auto
    then show ?thesis using False a by (simp add: and_then_def)
  qed
  then obtain smp where smp: "(if idx = 0 then Inr None
            else and_then (build_seed libs_double (draws_example idx) problem10 (st_saved st))
                   (\<lambda>full_sampling. Inr (Some full_sampling))) = Inr smp" by blast
  show ?thesis
    unfolding env_step_def Let_def fst_conv snd_conv f smp and_then_Inr compute_ms_double
    using sv a by (simp add: draws_example_def)
qed

lemma fold_double:
  "st_saved st = replicate k zero10 \<Longrightarrow> k + length ts \<le> 1000 \<Longrightarrow>
   \<exists>st'. fold_err (env_step libs_double draws_example) st (zip [k..<k + length ts] ts) = Inr st'"
proof (induction ts arbitrary: k st)
  case Nil
  then show ?case by simp
next
  case (Cons t ts)
  have k: "k < 1000" using Cons.prems(2) by simp
  obtain s1 where s1: "env_step libs_double draws_example st (k, t) = Inr s1"
    "st_saved s1 = replicate (Suc k) zero10"
    using env_step_double[OF Cons.prems(1) k] by blast
  have "[k..<k + length (t # ts)] = k # [Suc k..<Suc k + length ts]"
    by (subst upt_conv_Cons) simp_all
  then have z: "zip [k..<k + length (t # ts)] (t # ts) = (k, t) # zip [Suc k..<Suc k + length ts] ts"
    by (simp only: zip_Cons_Cons)
  obtain st' where "fold_err (env_step libs_double draws_example) s1 (zip [Suc k..<Suc k + length ts] ts)
      = Inr st'"
    using Cons.IH[OF s1(2)] Cons.prems(2) by auto
  then show ?case unfolding z using s1(1) by simp
qed

lemma run_loop_double: "\<exists>st. run_loop libs_double draws_example = Inr st"
  using fold_double[of initial_state 0 time_steps]
  by (simp add: run_loop_def enumerate_list_def initial_state_def time_steps_length)

lemma time_steps_values:
  "time_steps = [0, 1/10, 2/10, 3/10, 4/10, 5/10, 6/10, 7/10, 8/10, 9/10, 1,
                 11/10, 12/10, 13/10, 14/10, 15/10, 16/10, 17/10, 18/10, 19/10, 2]"
  by (simp add: time_steps_def py_range_def frequency_of_change_def severity_def upt_rec)

text \<open>
  Claim C2, amended. Whenever the seed construction of a step after the first returns
  a population, it has exactly \<open>population_size\<close> rows. It returns one for every
  archive that is not empty, with rows of width 10, and every problem with
  \<open>n_var = 10\<close> and bounds of that width. The population is, in this order: the rows
  of the transferred archive at the drawn indices (40 of them, or as many as the archive
  has), the 20 random rows, the members of the non-dominated front of the archive at the
  first 40 indices in descending order of crowding distance (between 1 and 40 rows, none
  with a smaller distance than a member of the front that is left out), and the random
  fill of the remaining rows, each row of width 10.
\<close>

theorem seed_population_size:
  "(build_seed L dr p saved = Inr seed \<longrightarrow> nrows seed = population_size) \<and>
   (argsort_spec (np_argsort L) \<and> inv_shape (np_inv L) \<and> inv_regular (np_inv L) \<and>
    eigh_shape (np_eigh L) \<and> eigh_total (np_eigh L) \<and> nds_spec (nds_do L) \<and>
    n_var p = 10 \<and> length (xl p) = 10 \<and> length (xu p) = 10 \<and>
    saved \<noteq> [] \<and> list_all (\<lambda>x. length x = 10) saved \<and>
    list_all (\<lambda>x. length (evaluate p x) = n_obj p) saved \<and>
    choice_ok (min (length saved) 100) (min 40 (length saved)) (transfer_pick dr) \<longrightarrow>
    (\<exists>T0 S Z T Fs nds front Ff cd sel E R Fl s.
      uniform (xl p) (xu p) 50 10 (target_u dr) = Inr T0 \<and>
      select_subset (np_argsort L) saved p 100 = Inr S \<and>
      transfer_solutions (np_argsort L) (np_inv L) (np_eigh L) S T0 = Inr Z \<and>
      nrows Z = min (length saved) 100 \<and>
      index_rows Z (transfer_pick dr) = Inr T \<and> T = take_rows Z (transfer_pick dr) \<and>
      evaluate_rows p saved = Inr Fs \<and> nds = nds_do L Fs \<and>
      index_rows (NDArray 10 saved) nds = Inr front \<and> rows front = map (\<lambda>i. saved ! i) nds \<and>
      index_rows Fs nds = Inr Ff \<and>
      crowding_distance (np_argsort L) Ff = Inr cd \<and> length cd = length nds \<and>
      sel = take 40 (np_argsort L (map fl_neg cd)) \<and>
      index_rows front sel = Inr E \<and> rows E = map (\<lambda>i. saved ! (nds ! i)) sel \<and>
      set (rows E) \<subseteq> set saved \<and>
      (\<forall>i\<in>set sel. \<forall>j<length cd. j \<notin> set sel \<longrightarrow> cd ! j \<le> cd ! i) \<and>
      uniform (xl p) (xu p) 20 10 (random_u dr) = Inr R \<and>
      uniform (xl p) (xu p) (int population_size - int (nrows T + nrows R + nrows E)) (n_var p)
        (fill_u dr) = Inr Fl \<and>
      build_seed L dr p saved = Inr s \<and>
      rows s = rows T @ rows R @ rows E @ rows Fl \<and>
      nrows T = min 40 (length saved) \<and> nrows R = 20 \<and> nrows E = min 40 (length nds) \<and>
      1 \<le> nrows E \<and> nrows E \<le> 40 \<and>
      nrows Fl = population_size - (nrows T + nrows R + nrows E) \<and>
      nrows s = population_size \<and> ncols s = 10 \<and> wf_array s))"
proof (intro conjI impI)
  assume "build_seed L dr p saved = Inr seed"
  then show "nrows seed = population_size" by (rule build_seed_rows)
next
  assume h: "argsort_spec (np_argsort L) \<and> inv_shape (np_inv L) \<and> inv_regular (np_inv L) \<and>
    eigh_shape (np_eigh L) \<and> eigh_total (np_eigh L) \<and> nds_spec (nds_do L) \<and>
    n_var p = 10 \<and> length (xl p) = 10 \<and> length (xu p) = 10 \<and>
    saved \<noteq> [] \<and> list_all (\<lambda>x. length x = 10) saved \<and>
    list_all (\<lambda>x. length (evaluate p x) = n_obj p) saved \<and>
    choice_ok (min (length saved) 100) (min 40 (length saved)) (transfer_pick dr)"
  show "\<exists>T0 S Z T Fs nds front Ff cd sel E R Fl s.
      uniform (xl p) (xu p) 50 10 (target_u dr) = Inr T0 \<and>
      select_subset (np_argsort L) saved p 100 = Inr S \<and>
      transfer_solutions (np_argsort L) (np_inv L) (np_eigh L) S T0 = Inr Z \<and>
      nrows Z = min (length saved) 100 \<and>
      index_rows Z (transfer_pick dr) = Inr T \<and> T = take_rows Z (transfer_pick dr) \<and>
      evaluate_rows p saved = Inr Fs \<and> nds = nds_do L Fs \<and>
      index_rows (NDArray 10 saved) nds = Inr front \<and> rows front = map (\<lambda>i. saved ! i) nds \<and>
      index_rows Fs nds = Inr Ff \<and>
      crowding_distance (np_argsort L) Ff = Inr cd \<and> length cd = length nds \<and>
      sel = take 40 (np_argsort L (map fl_neg cd)) \<and>
      index_rows front sel = Inr E \<and> rows E = map (\<lambda>i. saved ! (nds ! i)) sel \<and>
      set (rows E) \<subseteq> set saved \<and>
      (\<forall>i\<in>set sel. \<forall>j<length cd. j \<notin> set sel \<longrightarrow> cd ! j \<le> cd ! i) \<and>
      uniform (xl p) (xu p) 20 10 (random_u dr) = Inr R \<and>
      uniform (xl p) (xu p) (int population_size - int (nrows T + nrows R + nrows E)) (n_var p)
        (fill_u dr) = Inr Fl \<and>
      build_seed L dr p saved = Inr s \<and>
      rows s = rows T @ rows R @ rows E @ rows Fl \<and>
      nrows T = min 40 (length saved) \<and> nrows R = 20 \<and> nrows E = min 40 (length nds) \<and>
      1 \<le> nrows E \<and> nrows E \<le> 40 \<and>
      nrows Fl = population_size - (nrows T + nrows R + nrows E) \<and>
      nrows s = population_size \<and> ncols s = 10 \<and> wf_array s"
    using h by (intro build_seed_parts) simp_all
qed

theorem seed_population_size_witness:
  "argsort_spec (np_argsort libs_double) \<and> inv_shape (np_inv libs_double) \<and>
   inv_regular (np_inv libs_double) \<and> eigh_shape (np_eigh libs_double) \<and>
   eigh_total (np_eigh libs_double) \<and> nds_spec (nds_do libs_double) \<and>
   n_var problem10 = 10 \<and> length (xl problem10) = 10 \<and> length (xu problem10) = 10 \<and>
   list_all (\<lambda>x. length x = 10) [zero10] \<and>
   choice_ok (min (length [zero10]) 100) (min 40 (length [zero10])) (transfer_pick (draws_example 1)) \<and>
   (\<exists>T R E Fl s. build_seed libs_double (draws_example 1) problem10 [zero10] = Inr s \<and>
        rows s = rows T @ rows R @ rows E @ rows Fl \<and>
        nrows T = 1 \<and> nrows R = 20 \<and> nrows E = 1 \<and> rows E = [zero10] \<and> nrows Fl = 78 \<and>
        nrows s = population_size \<and> ncols s = 10) \<and>
   population_size = 100"
proof -
  have pick: "choice_ok (min (length [zero10]) 100) (min 40 (length [zero10]))
      (transfer_pick (draws_example 1))"
    by (simp add: draws_example_def choice_ok_def)
  have w: "list_all (\<lambda>x. length x = 10) [zero10]" by (simp add: zero10_def)
  have ev: "list_all (\<lambda>x. length (evaluate problem10 x) = n_obj problem10) [zero10]"
    by (simp add: problem10_bounds)
  have hyp: "argsort_spec (np_argsort libs_double) \<and> inv_shape (np_inv libs_double) \<and>
    inv_regular (np_inv libs_double) \<and>
    eigh_shape (np_eigh libs_double) \<and> eigh_total (np_eigh libs_double) \<and>
    nds_spec (nds_do libs_double) \<and>
    n_var problem10 = 10 \<and> length (xl problem10) = 10 \<and> length (xu problem10) = 10 \<and>
    [zero10] \<noteq> [] \<and> list_all (\<lambda>x. length x = 10) [zero10] \<and>
    list_all (\<lambda>x. length (evaluate problem10 x) = n_obj problem10) [zero10] \<and>
    choice_ok (min (length [zero10]) 100) (min 40 (length [zero10])) (transfer_pick (draws_example 1))"
    using libs_double_specs problem10_bounds(1,2,3) w ev pick by simp
  note t = seed_population_size[of libs_double "draws_example 1" problem10 "[zero10]",
      THEN conjunct2, THEN mp, OF hyp]
  from t obtain T0 S Z T Fs nds front Ff cd sel E R Fl s where
    "uniform (xl problem10) (xu problem10) 50 10 (target_u (draws_example 1)) = Inr T0"
    "select_subset (np_argsort libs_double) [zero10] problem10 100 = Inr S"
    "transfer_solutions (np_argsort libs_double) (np_inv libs_double) (np_eigh libs_double) S T0
       = Inr Z"
    "nrows Z = min (length [zero10]) 100"
    "index_rows Z (transfer_pick (draws_example 1)) = Inr T"
    "T = take_rows Z (transfer_pick (draws_example 1))"
    "evaluate_rows problem10 [zero10] = Inr Fs"
    and o1: "nds = nds_do libs_double Fs"
    and "index_rows (NDArray 10 [zero10]) nds = Inr front"
    "rows front = map (\<lambda>i. [zero10] ! i) nds"
    "index_rows Fs nds = Inr Ff"
    "crowding_distance (np_argsort libs_double) Ff = Inr cd" "length cd = length nds"
    "sel = take 40 (np_argsort libs_double (map fl_neg cd))"
    "index_rows front sel = Inr E"
    "rows E = map (\<lambda>i. [zero10] ! (nds ! i)) sel"
    and o3: "set (rows E) \<subseteq> set [zero10]"
    and "\<forall>i\<in>set sel. \<forall>j<length cd. j \<notin> set sel \<longrightarrow> cd ! j \<le> cd ! i"
    "uniform (xl problem10) (xu problem10) 20 10 (random_u (draws_example 1)) = Inr R"
    "uniform (xl problem10) (xu problem10)
       (int population_size - int (nrows T + nrows R + nrows E)) (n_var problem10)
       (fill_u (draws_example 1)) = Inr Fl"
    and o4: "build_seed libs_double (draws_example 1) problem10 [zero10] = Inr s"
    and o5: "rows s = rows T @ rows R @ rows E @ rows Fl"
    and o6: "nrows T = min 40 (length [zero10])" and o7: "nrows R = 20"
    and o8: "nrows E = min 40 (length nds)"
    and "1 \<le> nrows E" "nrows E \<le> 40"
    and o9: "nrows Fl = population_size - (nrows T + nrows R + nrows E)"
    and o10: "nrows s = population_size" and o11: "ncols s = 10" and "wf_array s"
    by (elim exE conjE) (rule that)
  have nds: "nds = [0]" using o1 by (simp add: libs_double_def)
  have nE: "nrows E = 1" using o8 nds by simp
  then have "length (rows E) = 1" by (simp add: nrows_def)
  then obtain r where r: "rows E = [r]" by (cases "rows E") simp_all
  then have rE: "rows E = [zero10]" using o3 by simp
  have nT: "nrows T = 1" using o6 by simp
  have nFl: "nrows Fl = 78" using o9 nT o7 nE by (simp add: population_size_def)
  have "\<exists>T R E Fl s. build_seed libs_double (draws_example 1) problem10 [zero10] = Inr s \<and>
        rows s = rows T @ rows R @ rows E @ rows Fl \<and>
        nrows T = 1 \<and> nrows R = 20 \<and> nrows E = 1 \<and> rows E = [zero10] \<and> nrows Fl = 78 \<and>
        nrows s = population_size \<and> ncols s = 10"
    using o4 o5 o7 o10 o11 nT nE rE nFl by blast
  then show ?thesis
    using libs_double_specs problem10_bounds(1,2,3) w pick by (simp add: population_size_def)
qed

text \<open>
  The claim as it was stated fails on the empty archive: select_subset returns
  \<open>np.array([])\<close>, which the transfer step cannot stack on the ten columns of the
  target population, and the construction raises ValueError. It also fails on an archive
  that is not empty when the bounds are valid but \<open>n_var\<close> is not 10.
\<close>

theorem seed_population_empty_archive_counterexample:
  "build_seed libs_double (draws_example 1) problem10 [] = Inl ValueError \<and>
   n_var problem10 = 10 \<and> length (xl problem10) = 10 \<and> length (xu problem10) = 10 \<and>
   build_seed libs_double (draws_example 3) example_problem [[3], [1], [2]] = Inl ValueError \<and>
   n_var example_problem = 1 \<and> length (xl example_problem) = 1 \<and> length (xu example_problem) = 1"
proof -
  have "build_seed libs_double (draws_example 3) example_problem [[3], [1], [2]] = Inl ValueError"
    by (rule build_seed_wrong_width(1)[OF libs_double_specs(1)])
      (simp_all add: example_problem_def)
  then show ?thesis by (simp add: build_seed_empty_archive problem10_bounds example_problem_def)
qed

text \<open>
  Claim C3, amended. The code has no condition of numerical instability and no
  fallback. When \<open>np.linalg.inv\<close> raises in fit_transform, fit_transform raises
  numpy's LinAlgError. In the transfer step this cannot happen: with the configuration
  of transfer_solutions (rbf kernel, \<open>lamb = 1\<close>, \<open>gamma = 0.4\<close>) the matrix
  \<open>K + lamb * I\<close> is regular for every source and target, duplicate points
  included, and the inversion returns. An exception of the transfer step, whatever it
  is, is the exception of the seed construction, of the environment step and of the
  loop: nothing catches it, and no seed population is built without the transfer.
\<close>

theorem inversion_failure_raises:
  "(kernel_type self = ''rbf'' \<and> 1 \<le> nrows Xs \<and> 1 \<le> nrows Xt \<and>
    ridge_matrix self Xs Xt = Inr M \<and> linalg_inv M = None \<longrightarrow>
      fit_transform argsort linalg_inv linalg_eigh self Xs Xt = Inl LinAlgError) \<and>
   (argsort_spec (np_argsort L) \<and> inv_shape (np_inv L) \<and> inv_regular (np_inv L) \<and>
    eigh_shape (np_eigh L) \<and> eigh_total (np_eigh L) \<and> wf_array S \<and> wf_array T \<and>
    1 \<le> nrows S \<and> 1 \<le> nrows T \<and> ncols S = ncols T \<and> 1 \<le> ncols S \<longrightarrow>
      (\<exists>R Ri Z. ridge_matrix transfer_tca S T = Inr R \<and> \<not> singular R \<and>
         np_inv L R = Some Ri \<and>
         transfer_solutions (np_argsort L) (np_inv L) (np_eigh L) S T = Inr Z)) \<and>
   (uniform (xl p) (xu p) 50 10 (target_u dr) = Inr T0 \<and>
    select_subset (np_argsort L) saved p 100 = Inr S0 \<and>
    transfer_solutions (np_argsort L) (np_inv L) (np_eigh L) S0 T0 = Inl err \<longrightarrow>
      build_seed L dr p saved = Inl err) \<and>
   (0 < idx \<and> build_seed L (draws idx) (make_problem L t) (st_saved st) = Inl err \<longrightarrow>
      env_step L draws st (idx, t) = Inl err \<and>
      fold_err (env_step L draws) st ((idx, t) # rest) = Inl err)"
proof (intro conjI impI)
  assume h: "kernel_type self = ''rbf'' \<and> 1 \<le> nrows Xs \<and> 1 \<le> nrows Xt \<and>
    ridge_matrix self Xs Xt = Inr M \<and> linalg_inv M = None"
  show "fit_transform argsort linalg_inv linalg_eigh self Xs Xt = Inl LinAlgError"
    using h by (intro fit_transform_inv_fails[where linalg_inv = linalg_inv and M = M]) simp_all
next
  assume h: "argsort_spec (np_argsort L) \<and> inv_shape (np_inv L) \<and> inv_regular (np_inv L) \<and>
    eigh_shape (np_eigh L) \<and> eigh_total (np_eigh L) \<and> wf_array S \<and> wf_array T \<and>
    1 \<le> nrows S \<and> 1 \<le> nrows T \<and> ncols S = ncols T \<and> 1 \<le> ncols S"
  have cfg: "kernel_type transfer_tca = ''rbf''" "0 \<le> gamma transfer_tca" "0 < lamb transfer_tca"
    by (simp_all add: transfer_tca_def)
  obtain R Ri where r: "ridge_matrix transfer_tca S T = Inr R" "\<not> singular R"
    "np_inv L R = Some Ri"
    using ridge_matrix_regular[where linalg_inv = "np_inv L" and self = transfer_tca
        and Xs = S and Xt = T] h cfg
    by blast
  obtain Z where "transfer_solutions (np_argsort L) (np_inv L) (np_eigh L) S T = Inr Z"
    unfolding transfer_solutions_def
    using fit_transform_returns[where argsort = "np_argsort L" and linalg_inv = "np_inv L"
        and linalg_eigh = "np_eigh L" and self = transfer_tca and Xs = S and Xt = T] h cfg
    by blast
  then show "\<exists>R Ri Z. ridge_matrix transfer_tca S T = Inr R \<and> \<not> singular R \<and>
         np_inv L R = Some Ri \<and>
         transfer_solutions (np_argsort L) (np_inv L) (np_eigh L) S T = Inr Z"
    using r by blast
next
  assume h: "uniform (xl p) (xu p) 50 10 (target_u dr) = Inr T0 \<and>
    select_subset (np_argsort L) saved p 100 = Inr S0 \<and>
    transfer_solutions (np_argsort L) (np_inv L) (np_eigh L) S0 T0 = Inl err"
  show "build_seed L dr p saved = Inl err"
    using h by (intro build_seed_transfer_error[where ?T0.0 = T0 and S = S0]) simp_all
next
  assume h: "0 < idx \<and> build_seed L (draws idx) (make_problem L t) (st_saved st) = Inl err"
  then show e: "env_step L draws st (idx, t) = Inl err"
    by (intro env_step_seed_error) simp_all
  then show "fold_err (env_step L draws) st ((idx, t) # rest) = Inl err" by simp
qed

text \<open>
  The four parts at concrete inputs: one point twice with \<open>lamb = 0\<close>, where the
  kernel matrix is singular and the exact inverse raises; the same points with the
  configuration of the transfer step, where the inverse exists; an archive of width 1,
  where the transfer step raises ValueError and so does the seed construction; and a
  step on the empty archive, where the seed construction, the step and the loop raise.
\<close>

theorem inversion_failure_raises_witness:
  "kernel_type \<lparr>dim = 10, kernel_type = ''rbf'', lamb = 0, gamma = 4 / 10\<rparr> = ''rbf'' \<and>
   1 \<le> nrows one_point \<and>
   ridge_matrix \<lparr>dim = 10, kernel_type = ''rbf'', lamb = 0, gamma = 4 / 10\<rparr> one_point one_point
     = Inr ones2 \<and>
   inv_total2 ones2 = None \<and>
   fit_transform argsort_stable inv_total2 eigh_diff2
     \<lparr>dim = 10, kernel_type = ''rbf'', lamb = 0, gamma = 4 / 10\<rparr> one_point one_point
     = Inl LinAlgError \<and>
   argsort_spec (np_argsort (libs_double\<lparr>np_inv := inv_total2, np_eigh := eigh_diff2\<rparr>)) \<and>
   inv_shape (np_inv (libs_double\<lparr>np_inv := inv_total2, np_eigh := eigh_diff2\<rparr>)) \<and>
   inv_regular (np_inv (libs_double\<lparr>np_inv := inv_total2, np_eigh := eigh_diff2\<rparr>)) \<and>
   eigh_shape (np_eigh (libs_double\<lparr>np_inv := inv_total2, np_eigh := eigh_diff2\<rparr>)) \<and>
   eigh_total (np_eigh (libs_double\<lparr>np_inv := inv_total2, np_eigh := eigh_diff2\<rparr>)) \<and>
   wf_array one_point \<and> 1 \<le> ncols one_point \<and>
   ridge_matrix transfer_tca one_point one_point = Inr (NDArray 2 [[2, 1], [1, 2]]) \<and>
   \<not> singular (NDArray 2 [[2, 1], [1, 2]]) \<and>
   np_inv (libs_double\<lparr>np_inv := inv_total2, np_eigh := eigh_diff2\<rparr>) (NDArray 2 [[2, 1], [1, 2]])
     = Some (NDArray 2 [[2 / 3, - 1 / 3], [- 1 / 3, 2 / 3]]) \<and>
   (\<exists>Z. transfer_solutions argsort_stable inv_total2 eigh_diff2 one_point one_point = Inr Z) \<and>
   (\<exists>T0 S0. uniform (xl example_problem) (xu example_problem) 50 10 (target_u (draws_example 3))
        = Inr T0 \<and>
      select_subset (np_argsort libs_double) [[3], [1], [2]] example_problem 100 = Inr S0 \<and>
      transfer_solutions (np_argsort libs_double) (np_inv libs_double) (np_eigh libs_double) S0 T0
        = Inl ValueError) \<and>
   build_seed libs_double (draws_example 3) example_problem [[3], [1], [2]] = Inl ValueError \<and>
   build_seed libs_double (draws_example 1) (make_problem libs_double (1 / 10))
     (st_saved initial_state) = Inl ValueError \<and>
   env_step libs_double draws_example initial_state (1, 1 / 10) = Inl ValueError \<and>
   fold_err (env_step libs_double draws_example) initial_state [(1, 1 / 10), (2, 2 / 10)]
     = Inl ValueError"
proof -
  let ?self = "\<lparr>dim = 10, kernel_type = ''rbf'', lamb = 0, gamma = 4 / 10\<rparr>"
  let ?L = "libs_double\<lparr>np_inv := inv_total2, np_eigh := eigh_diff2\<rparr>"
  have n: "1 \<le> nrows one_point" "wf_array one_point" "1 \<le> ncols one_point"
    by (simp_all add: one_point_def nrows_def wf_array_def)
  have r0: "ridge_matrix ?self one_point one_point = Inr ones2"
    using duplicate_points_ridge[of 10 0 "4 / 10"] by (simp add: ones2_def)
  have i0: "inv_total2 ones2 = None"
    by (simp add: inv_total2_def inv2_def ones2_def nrows_def entry_def)
  have a: "fit_transform argsort_stable inv_total2 eigh_diff2 ?self one_point one_point
      = Inl LinAlgError"
    using inversion_failure_raises[THEN conjunct1, of ?self one_point one_point ones2 inv_total2
        argsort_stable eigh_diff2] n(1) r0 i0
    by simp
  have f: "np_argsort ?L = argsort_stable" "np_inv ?L = inv_total2" "np_eigh ?L = eigh_diff2"
    by (simp_all add: libs_double_def)
  have ir: "argsort_spec (np_argsort ?L)" "inv_shape (np_inv ?L)" "inv_regular (np_inv ?L)"
    "eigh_shape (np_eigh ?L)" "eigh_total (np_eigh ?L)"
    unfolding f
    by (rule argsort_stable_spec inv_total2_shape inv_total2_regular eigh_diff2_shape
        eigh_diff2_total)+
  have r1: "ridge_matrix transfer_tca one_point one_point = Inr (NDArray 2 [[2, 1], [1, 2]])"
    using duplicate_points_ridge[of 10 1 "4 / 10"] by (simp add: transfer_tca_def)
  have "\<exists>R Ri Z. ridge_matrix transfer_tca one_point one_point = Inr R \<and> \<not> singular R \<and>
      np_inv ?L R = Some Ri \<and>
      transfer_solutions (np_argsort ?L) (np_inv ?L) (np_eigh ?L) one_point one_point = Inr Z"
    using inversion_failure_raises[THEN conjunct2, THEN conjunct1, of ?L one_point one_point]
      ir n by simp
  then have b: "\<not> singular (NDArray 2 [[2, 1], [1, 2]])"
    and z: "\<exists>Z. transfer_solutions argsort_stable inv_total2 eigh_diff2 one_point one_point = Inr Z"
    unfolding r1 f by auto
  have i1: "np_inv ?L (NDArray 2 [[2, 1], [1, 2]])
      = Some (NDArray 2 [[2 / 3, - 1 / 3], [- 1 / 3, 2 / 3]])"
    by (simp add: inv_total2_def inv2_def nrows_def entry_def Let_def)
  have h1: "n_var example_problem \<noteq> 10" "length (xl example_problem) = n_var example_problem"
    "length (xu example_problem) = n_var example_problem"
    "list_all (\<lambda>x. length x = n_var example_problem) [[3], [1], [2]]"
    "list_all (\<lambda>x. length (evaluate example_problem x) = n_obj example_problem) [[3], [1], [2]]"
    "n_var example_problem = 1"
    by (simp_all add: example_problem_def)
  obtain T0 S0 where t:
    "uniform (xl example_problem) (xu example_problem) 50 10 (target_u (draws_example 3)) = Inr T0"
    "select_subset (np_argsort libs_double) [[3], [1], [2]] example_problem 100 = Inr S0"
    "transfer_solutions (np_argsort libs_double) (np_inv libs_double) (np_eigh libs_double) S0 T0
        = Inl ValueError"
    using build_seed_wrong_width(3)[OF libs_double_specs(1) h1(1-5) h1(6),
        where dr = "draws_example 3"]
    by auto
  have c: "build_seed libs_double (draws_example 3) example_problem [[3], [1], [2]] = Inl ValueError"
    using inversion_failure_raises[THEN conjunct2, THEN conjunct2, THEN conjunct1,
        of example_problem "draws_example 3" T0 libs_double "[[3], [1], [2]]" S0 ValueError] t
    by simp
  have m: "make_problem libs_double (1 / 10) = problem10" by (simp add: libs_double_def)
  have s: "st_saved initial_state = []" by (simp add: initial_state_def)
  have d0: "build_seed libs_double (draws_example 1) (make_problem libs_double (1 / 10))
     (st_saved initial_state) = Inl ValueError"
    unfolding m s by (rule build_seed_empty_archive)
  have d: "env_step libs_double draws_example initial_state (1, 1 / 10) = Inl ValueError \<and>
      fold_err (env_step libs_double draws_example) initial_state ((1, 1 / 10) # [(2, 2 / 10)])
        = Inl ValueError"
    using inversion_failure_raises[THEN conjunct2, THEN conjunct2, THEN conjunct2,
        of 1 libs_double draws_example "1 / 10" initial_state ValueError "[(2, 2 / 10)]"] d0
    by simp
  have te: "\<exists>T0 S0. uniform (xl example_problem) (xu example_problem) 50 10
        (target_u (draws_example 3)) = Inr T0 \<and>
      select_subset (np_argsort libs_double) [[3], [1], [2]] example_problem 100 = Inr S0 \<and>
      transfer_solutions (np_argsort libs_double) (np_inv libs_double) (np_eigh libs_double) S0 T0
        = Inl ValueError"
    using t by blast
  show ?thesis using n r0 i0 a ir r1 b i1 z te c d0 d by (intro conjI) simp_all
qed

text \<open>
  The claim as it was stated fails on fit_transform with \<open>lamb = 0\<close> and the same
  point as source and target: the kernel matrix is all ones, \<open>np.linalg.inv\<close> raises
  on this singular matrix, and fit_transform raises LinAlgError; it signals no other
  condition and returns nothing to fall back on.
\<close>

theorem singular_kernel_counterexample:
  "ridge_matrix \<lparr>dim = 10, kernel_type = ''rbf'', lamb = 0, gamma = 4 / 10\<rparr> one_point one_point
     = Inr ones2 \<and>
   singular ones2 \<and> inv_total2 ones2 = None \<and>
   fit_transform argsort_stable inv_total2 eigh_diff2
     \<lparr>dim = 10, kernel_type = ''rbf'', lamb = 0, gamma = 4 / 10\<rparr> one_point one_point
     = Inl LinAlgError"
proof -
  have "ridge_matrix \<lparr>dim = 10, kernel_type = ''rbf'', lamb = 0, gamma = 4 / 10\<rparr> one_point one_point
     = Inr ones2"
    using duplicate_points_ridge[of 10 0 "4 / 10"] by (simp add: ones2_def)
  moreover have "inv_total2 ones2 = None"
    by (simp add: inv_total2_def inv2_def ones2_def nrows_def entry_def)
  ultimately show ?thesis using singular_ones2 singular_kernel_raises by simp
qed

text \<open>
  Claim C10, amended. For every problem whose \<open>n_var\<close> is not 10 (with bounds and
  archive rows of width \<open>n_var\<close>) the seed construction raises ValueError and builds
  no seed population. The exception comes from the first call that meets the
  hard-coded width 10: the sampling of the random target population when \<open>n_var\<close>
  is neither 1 nor 10 (the bounds cannot be broadcast to ten columns), and the
  stacking of source and target inside the transfer step when \<open>n_var = 1\<close>.
\<close>

theorem seed_fails_unless_ten_columns:
  assumes "argsort_spec (np_argsort L)"
    and "n_var p \<noteq> 10" and "length (xl p) = n_var p" and "length (xu p) = n_var p"
    and "list_all (\<lambda>x. length x = n_var p) saved"
    and "list_all (\<lambda>x. length (evaluate p x) = n_obj p) saved"
  shows "build_seed L dr p saved = Inl ValueError \<and>
    (n_var p \<noteq> 1 \<longrightarrow> uniform (xl p) (xu p) 50 10 (target_u dr) = Inl ValueError) \<and>
    (n_var p = 1 \<and> saved \<noteq> [] \<longrightarrow>
       (\<exists>T0 S. uniform (xl p) (xu p) 50 10 (target_u dr) = Inr T0 \<and>
          select_subset (np_argsort L) saved p 100 = Inr S \<and>
          transfer_solutions (np_argsort L) (np_inv L) (np_eigh L) S T0 = Inl ValueError))"
  using build_seed_wrong_width[OF assms] by blast

theorem seed_fails_unless_ten_columns_witness:
  "argsort_spec (np_argsort libs_double) \<and> n_var problem3 \<noteq> 10 \<and>
   length (xl problem3) = n_var problem3 \<and> length (xu problem3) = n_var problem3 \<and>
   list_all (\<lambda>x. length x = n_var problem3) [[0, 0, 0]] \<and>
   build_seed libs_double (draws_example 1) problem3 [[0, 0, 0]] = Inl ValueError \<and>
   uniform (xl problem3) (xu problem3) 50 10 (target_u (draws_example 1)) = Inl ValueError \<and>
   n_var example_problem = 1 \<and>
   build_seed libs_double (draws_example 3) example_problem [[3], [1], [2]] = Inl ValueError \<and>
   (\<exists>T0 S. uniform (xl example_problem) (xu example_problem) 50 10 (target_u (draws_example 3)) = Inr T0 \<and>
      select_subset (np_argsort libs_double) [[3], [1], [2]] example_problem 100 = Inr S \<and>
      transfer_solutions (np_argsort libs_double) (np_inv libs_double) (np_eigh libs_double) S T0
        = Inl ValueError)"
proof -
  have h3: "n_var problem3 \<noteq> 10" "length (xl problem3) = n_var problem3"
    "length (xu problem3) = n_var problem3"
    "list_all (\<lambda>x. length x = n_var problem3) [[0, 0, 0]]"
    "list_all (\<lambda>x. length (evaluate problem3 x) = n_obj problem3) [[0, 0, 0]]"
    "n_var problem3 \<noteq> 1"
    by (simp_all add: problem3_def)
  have h1: "n_var example_problem \<noteq> 10" "length (xl example_problem) = n_var example_problem"
    "length (xu example_problem) = n_var example_problem"
    "list_all (\<lambda>x. length x = n_var example_problem) [[3], [1], [2]]"
    "list_all (\<lambda>x. length (evaluate example_problem x) = n_obj example_problem) [[3], [1], [2]]"
    "n_var example_problem = 1"
    by (simp_all add: example_problem_def)
  note t3 = seed_fails_unless_ten_columns[OF libs_double_specs(1) h3(1-5), of "draws_example 1"]
  note t1 = seed_fails_unless_ten_columns[OF libs_double_specs(1) h1(1-5), of "draws_example 3"]
  from t3 h3(6) have a: "build_seed libs_double (draws_example 1) problem3 [[0, 0, 0]] = Inl ValueError"
    "uniform (xl problem3) (xu problem3) 50 10 (target_u (draws_example 1)) = Inl ValueError"
    by blast+
  from t1 h1(6) have b: "build_seed libs_double (draws_example 3) example_problem [[3], [1], [2]] = Inl ValueError"
    "\<exists>T0 S. uniform (xl example_problem) (xu example_problem) 50 10 (target_u (draws_example 3)) = Inr T0 \<and>
      select_subset (np_argsort libs_double) [[3], [1], [2]] example_problem 100 = Inr S \<and>
      transfer_solutions (np_argsort libs_double) (np_inv libs_double) (np_eigh libs_double) S T0
        = Inl ValueError"
    by blast+
  show ?thesis using libs_double_specs(1) h3(1-4) h1(6) a b by blast
qed

text \<open>
  The claim as it was stated places the failure at the stacking of the seed
  components. With three decision variables the first statement of the construction,
  the sampling of the 50 by 10 target population, already raises ValueError; the
  components are never built or stacked.
\<close>

theorem sampling_fails_before_stacking_counterexample:
  "n_var problem3 = 3 \<and> length (xl problem3) = 3 \<and> length (xu problem3) = 3 \<and>
   uniform (xl problem3) (xu problem3) 50 10 (target_u (draws_example 1)) = Inl ValueError \<and>
   build_seed libs_double (draws_example 1) problem3 [[0, 0, 0]] = Inl ValueError"
proof -
  have u: "uniform (xl problem3) (xu problem3) 50 10 (target_u (draws_example 1)) = Inl ValueError"
    by (rule uniform_width_fails) (simp_all add: problem3_def)
  have "build_seed libs_double (draws_example 1) problem3 [[0, 0, 0]] = Inl ValueError"
    unfolding build_seed_def u and_then_Inl ..
  then show ?thesis using u by (simp add: problem3_def)
qed

text \<open>
  Claim C4. The loop runs once per entry of \<open>time_steps\<close>. The list is built from
  \<open>range(0, 201, 10)\<close> and has 21 different entries, while \<open>num_changes + 1\<close> is
  10: a run that ends without an exception has optimized and recorded 21
  environments, not 10.
\<close>

theorem loop_runs_once_per_time_step:
  "length time_steps = 21 \<and> distinct time_steps \<and> num_changes + 1 = 10 \<and>
   (run_loop L draws = Inr st \<longrightarrow>
      length (st_fronts st) = 21 \<and> length (st_migd_vals st) = 21 \<and> length (st_ms_vals st) = 21)"
proof (intro conjI impI)
  show "length time_steps = 21" by (rule time_steps_length)
  show "distinct time_steps" unfolding time_steps_values by simp
  show "num_changes + 1 = 10" by (simp add: num_changes_def)
next
  assume r: "run_loop L draws = Inr st"
  show "length (st_fronts st) = 21" "length (st_migd_vals st) = 21" "length (st_ms_vals st) = 21"
    using run_loop_fronts[OF r] by simp_all
qed

theorem loop_runs_once_per_time_step_witness:
  "\<exists>st. run_loop libs_double draws_example = Inr st \<and> length (st_fronts st) = 21 \<and>
        length (st_fronts st) \<noteq> num_changes + 1"
proof -
  obtain st where st: "run_loop libs_double draws_example = Inr st"
    using run_loop_double by blast
  have "length (st_fronts st) = 21"
    using loop_runs_once_per_time_step[of libs_double draws_example st] st by blast
  then show ?thesis using st by (auto simp: num_changes_def)
qed


end
